theory Spec2Isabelle
  imports Main "HOL-Library.Word"
begin

section \<open>Dynamically typed values\<close>

text \<open>
  The store keeps values of Go type \<^verbatim>\<open>interface{}\<close>. A value of that type is a pair of a
  dynamic type and a value of it. The model has the empty interface (\<^verbatim>\<open>nil\<close>); the
  comparable basic types \<^verbatim>\<open>bool\<close>, \<^verbatim>\<open>int\<close>, \<^verbatim>\<open>float64\<close> (as its 64 bits) and
  \<^verbatim>\<open>string\<close>; the package's own struct \<^verbatim>\<open>ExpirationNotification\<close>; the arrays
  \<^verbatim>\<open>[n]interface{}\<close>, a comparable composite type whose elements are again dynamically
  typed (a struct with fields of interface type is compared in the same way, field by
  field); and the three kinds of Go types that are not comparable: slices, maps and
  functions.
\<close>

record ExpirationNotification =
  Key :: string

datatype dyn =
    VNil
  | VBool bool
  | VInt int
  | VFloat64 "64 word"
  | VString string
  | VExpirationNotification ExpirationNotification
  | VArray "dyn list"
  | VSlice "dyn list"
  | VMap "(string \<times> dyn) list"
  | VFunc nat

datatype gotype =
    TNil | TBool | TInt | TFloat64 | TString | TExpirationNotification | TArray nat
  | TSlice | TMap | TFunc

fun dynType :: "dyn \<Rightarrow> gotype" where
  "dynType VNil = TNil"
| "dynType (VBool b) = TBool"
| "dynType (VInt i) = TInt"
| "dynType (VFloat64 x) = TFloat64"
| "dynType (VString s) = TString"
| "dynType (VExpirationNotification n) = TExpirationNotification"
| "dynType (VArray xs) = TArray (length xs)"
| "dynType (VSlice xs) = TSlice"
| "dynType (VMap kvs) = TMap"
| "dynType (VFunc f) = TFunc"

text \<open>Whether Go allows \<^verbatim>\<open>==\<close> on the values of a type at all.\<close>

fun comparable :: "gotype \<Rightarrow> bool" where
  "comparable TSlice = False"
| "comparable TMap = False"
| "comparable TFunc = False"
| "comparable t = True"

text \<open>
  The only run-time fault of the package: a comparison that reaches two interface values
  whose common dynamic type is not comparable panics.
\<close>

datatype error = UncomparableType gotype

text \<open>
  \<^verbatim>\<open>==\<close> on \<^verbatim>\<open>float64\<close>, on the bits: a NaN (exponent all ones, fraction not zero)
  equals nothing, not even itself; the two zeros are equal; otherwise the bits decide.
  Doubling a word shifts the sign bit out.
\<close>

definition f64_isNaN :: "64 word \<Rightarrow> bool" where
  "f64_isNaN x = (0xFFE0000000000000 < x * 2)"

definition f64_eq :: "64 word \<Rightarrow> 64 word \<Rightarrow> bool" where
  "f64_eq x y =
     (if f64_isNaN x then False
      else if f64_isNaN y then False
      else if x = y then True
      else x * 2 = 0 \<and> y * 2 = 0)"

text \<open>
  \<^verbatim>\<open>a == b\<close> on two interface values: values of different dynamic types are unequal;
  values of the same type that is not comparable make the comparison panic; values of
  the same comparable type are compared. Arrays are compared element by element, in
  order, up to the first pair that differs; the elements are interface values, so this
  comparison can panic although the array type is comparable.
\<close>

fun iface_eq :: "dyn \<Rightarrow> dyn \<Rightarrow> error + bool"
  and elems_eq :: "dyn list \<Rightarrow> dyn list \<Rightarrow> error + bool" where
  "iface_eq a b =
     (if dynType a \<noteq> dynType b then Inr False
      else if \<not> comparable (dynType a) then Inl (UncomparableType (dynType a))
      else (case (a, b) of
              (VFloat64 x, VFloat64 y) \<Rightarrow> Inr (f64_eq x y)
            | (VArray xs, VArray ys) \<Rightarrow> elems_eq xs ys
            | _ \<Rightarrow> Inr (a = b)))"
| "elems_eq (x # xs) (y # ys) =
     (case iface_eq x y of
        Inl e \<Rightarrow> Inl e
      | Inr eq \<Rightarrow> if eq then elems_eq xs ys else Inr False)"
| "elems_eq xs ys = Inr True"

text \<open>\<^verbatim>\<open>a != b\<close> is the negation of \<^verbatim>\<open>a == b\<close>, with the same panic.\<close>

definition iface_neq :: "dyn \<Rightarrow> dyn \<Rightarrow> error + bool" where
  "iface_neq a b = (case iface_eq a b of Inl e \<Rightarrow> Inl e | Inr eq \<Rightarrow> Inr (\<not> eq))"

section \<open>The manager, its channels and its timers\<close>

text \<open>
  A channel is identified by a number. The sends of the program are recorded, oldest
  first, in one trace of (channel, value) pairs; a send is modelled as completing, that
  is, every subscribed channel is open and has a receiver, as the channels made by
  \<^verbatim>\<open>StartSubscription\<close> have.
\<close>

type_synonym chan = nat

record Subscription =
  Channel :: chan
  ConditionalNotifications :: bool

text \<open>
  A \<^verbatim>\<open>*time.Timer\<close> is the index of a timer object of the runtime. The object made by
  \<^verbatim>\<open>time.AfterFunc\<close> holds its deadline, the key captured by the callback
  \<^verbatim>\<open>func() { ssm.expireKey(key) }\<close>, and whether it is still waiting: a timer that
  has been stopped or has expired waits no more.
\<close>

type_synonym timer = nat

record SharedStateManager =
  stateMap :: "string \<rightharpoonup> dyn"
  timers :: "string \<rightharpoonup> timer"
  subscribers :: "string \<rightharpoonup> Subscription list"

record rt_timer =
  deadline :: int
  cbKey :: string
  waiting :: bool

text \<open>
  The whole state: the manager, the timer objects of the runtime, the timers that have
  expired and whose callback has not yet run, the trace of sends and the clock (in
  nanoseconds). Every exported method, and \<open>expireKey\<close>, holds the manager's lock from its
  first to its last statement, so each of them is one atomic step on this state.
\<close>

record world =
  ssm :: SharedStateManager
  rtimers :: "rt_timer list"
  pending :: "timer list"
  sent :: "(chan \<times> dyn) list"
  now :: int

definition NewSharedStateManager :: SharedStateManager where
  "NewSharedStateManager =
     \<lparr>stateMap = Map.empty, timers = Map.empty, subscribers = Map.empty\<rparr>"

definition boot :: world where
  "boot = \<lparr>ssm = NewSharedStateManager, rtimers = [], pending = [], sent = [], now = 0\<rparr>"

text \<open>The two-valued map index \<^verbatim>\<open>v, ok := m[key]\<close>; a missing key gives \<^verbatim>\<open>nil\<close>.\<close>

definition lookup :: "(string \<rightharpoonup> dyn) \<Rightarrow> string \<Rightarrow> dyn \<times> bool" where
  "lookup m key = (case m key of None \<Rightarrow> (VNil, False) | Some v \<Rightarrow> (v, True))"

text \<open>\<^verbatim>\<open>ssm.subscribers[key]\<close>: a missing key gives the nil slice, ranged over as empty.\<close>

definition subscribersOf :: "world \<Rightarrow> string \<Rightarrow> Subscription list" where
  "subscribersOf w key = (case subscribers (ssm w) key of None \<Rightarrow> [] | Some subs \<Rightarrow> subs)"

definition send :: "chan \<Rightarrow> dyn \<Rightarrow> world \<Rightarrow> world" where
  "send ch v w = w\<lparr>sent := sent w @ [(ch, v)]\<rparr>"

definition putState :: "string \<Rightarrow> dyn \<Rightarrow> world \<Rightarrow> world" where
  "putState key v w = w\<lparr>ssm := (ssm w)\<lparr>stateMap := (stateMap (ssm w))(key \<mapsto> v)\<rparr>\<rparr>"

definition deleteState :: "string \<Rightarrow> world \<Rightarrow> world" where
  "deleteState key w = w\<lparr>ssm := (ssm w)\<lparr>stateMap := (stateMap (ssm w))(key := None)\<rparr>\<rparr>"

definition putTimer :: "string \<Rightarrow> timer \<Rightarrow> world \<Rightarrow> world" where
  "putTimer key t w = w\<lparr>ssm := (ssm w)\<lparr>timers := (timers (ssm w))(key \<mapsto> t)\<rparr>\<rparr>"

definition deleteTimer :: "string \<Rightarrow> world \<Rightarrow> world" where
  "deleteTimer key w = w\<lparr>ssm := (ssm w)\<lparr>timers := (timers (ssm w))(key := None)\<rparr>\<rparr>"

text \<open>
  \<^verbatim>\<open>timer.Stop()\<close>: a waiting timer waits no more. On a timer that has been stopped or
  has expired the call changes nothing; it reports so, and the package drops the report.
\<close>

definition stopTimer :: "timer \<Rightarrow> world \<Rightarrow> world" where
  "stopTimer t w =
     (if t < length (rtimers w)
      then w\<lparr>rtimers := (rtimers w)[t := (rtimers w ! t)\<lparr>waiting := False\<rparr>]\<rparr>
      else w)"

text \<open>
  \<^verbatim>\<open>time.AfterFunc(duration, func() { ssm.expireKey(key) })\<close>: a new timer object, waiting,
  due \<open>duration\<close> from now (at once when the duration is not positive).
\<close>

definition afterFunc :: "int \<Rightarrow> string \<Rightarrow> world \<Rightarrow> timer \<times> world" where
  "afterFunc duration key w =
     (length (rtimers w),
      w\<lparr>rtimers := rtimers w @
           [\<lparr>deadline = now w + (if duration \<le> 0 then 0 else duration),
             cbKey = key, waiting = True\<rparr>]\<rparr>)"

section \<open>Notification\<close>

text \<open>
  The condition \<^verbatim>\<open>!sub.ConditionalNotifications || !exists || oldValue != value\<close>, with
  the short circuit of \<^verbatim>\<open>||\<close>: the comparison is evaluated only for a conditional
  subscriber of a key that existed.
\<close>

definition notifyCond :: "Subscription \<Rightarrow> bool \<Rightarrow> dyn \<Rightarrow> dyn \<Rightarrow> error + bool" where
  "notifyCond sub exists oldValue value =
     (if \<not> ConditionalNotifications sub then Inr True
      else if \<not> exists then Inr True
      else iface_neq oldValue value)"

text \<open>
  The loop of \<^verbatim>\<open>notifySubscribers\<close>. A panic leaves the loop with the state it had
  reached: \<open>Inl\<close> carries the fault and that state.
\<close>

type_synonym 'a result = "(error \<times> 'a) + 'a"

fun notifyLoop :: "Subscription list \<Rightarrow> dyn \<Rightarrow> bool \<Rightarrow> dyn \<Rightarrow> world \<Rightarrow> world result" where
  "notifyLoop [] value exists oldValue w = Inr w"
| "notifyLoop (sub # subs) value exists oldValue w =
     (case notifyCond sub exists oldValue value of
        Inl e \<Rightarrow> Inl (e, w)
      | Inr c \<Rightarrow>
          notifyLoop subs value exists oldValue
            (if c then send (Channel sub) value w else w))"

definition notifySubscribers :: "string \<Rightarrow> dyn \<Rightarrow> bool \<Rightarrow> dyn \<Rightarrow> world \<Rightarrow> world result" where
  "notifySubscribers key value exists oldValue w =
     notifyLoop (subscribersOf w key) value exists oldValue w"

text \<open>The loop that sends the expiration notification to every subscriber of the key.\<close>

fun expireLoop :: "Subscription list \<Rightarrow> dyn \<Rightarrow> world \<Rightarrow> world" where
  "expireLoop [] n w = w"
| "expireLoop (sub # subs) n w = expireLoop subs n (send (Channel sub) n w)"

section \<open>The methods\<close>

definition Set :: "string \<Rightarrow> dyn \<Rightarrow> world \<Rightarrow> world result" where
  "Set key value w =
     (case lookup (stateMap (ssm w)) key of
        (oldValue, exists) \<Rightarrow>
          notifySubscribers key value exists oldValue (putState key value w))"

definition SetWithTimeout :: "string \<Rightarrow> dyn \<Rightarrow> int \<Rightarrow> world \<Rightarrow> world result" where
  "SetWithTimeout key value duration w =
     (case notifySubscribers key value False VNil (putState key value w) of
        Inl e \<Rightarrow> Inl e
      | Inr w1 \<Rightarrow>
          (let w2 = (case timers (ssm w1) key of
                       Some t \<Rightarrow> stopTimer t w1
                     | None \<Rightarrow> w1)
           in case afterFunc duration key w2 of
                (t, w3) \<Rightarrow> Inr (putTimer key t w3)))"

definition expireKey :: "string \<Rightarrow> world \<Rightarrow> world" where
  "expireKey key w =
     (let w1 = deleteState key w;
          w2 = (case timers (ssm w1) key of
                  Some t \<Rightarrow> deleteTimer key (stopTimer t w1)
                | None \<Rightarrow> w1)
      in expireLoop (subscribersOf w2 key) (VExpirationNotification \<lparr>Key = key\<rparr>) w2)"

definition Get :: "string \<Rightarrow> world \<Rightarrow> dyn \<times> bool" where
  "Get key w = lookup (stateMap (ssm w)) key"

text \<open>The type assertion \<^verbatim>\<open>value.(string)\<close> gives the empty string and false on any other type.\<close>

definition assertString :: "dyn \<Rightarrow> string \<times> bool" where
  "assertString v = (case v of VString s \<Rightarrow> (s, True) | _ \<Rightarrow> ('''', False))"

definition GetString :: "string \<Rightarrow> world \<Rightarrow> string \<times> bool" where
  "GetString key w =
     (case lookup (stateMap (ssm w)) key of
        (value, exists) \<Rightarrow> if \<not> exists then ('''', False) else assertString value)"

definition GetStruct :: "string \<Rightarrow> world \<Rightarrow> dyn \<times> bool" where
  "GetStruct key w =
     (case lookup (stateMap (ssm w)) key of
        (value, exists) \<Rightarrow> if \<not> exists then (VNil, False) else (value, True))"

definition Delete :: "string \<Rightarrow> world \<Rightarrow> world" where
  "Delete key w =
     (let w1 = deleteState key w;
          w2 = (case timers (ssm w1) key of
                  Some t \<Rightarrow> deleteTimer key (stopTimer t w1)
                | None \<Rightarrow> w1)
      in expireLoop (subscribersOf w2 key) (VExpirationNotification \<lparr>Key = key\<rparr>) w2)"

definition Subscribe :: "string \<Rightarrow> chan \<Rightarrow> bool \<Rightarrow> world \<Rightarrow> world" where
  "Subscribe key ch conditional w =
     w\<lparr>ssm := (ssm w)\<lparr>subscribers := (subscribers (ssm w))
        (key \<mapsto> subscribersOf w key @
           [\<lparr>Channel = ch, ConditionalNotifications = conditional\<rparr>])\<rparr>\<rparr>"

section \<open>The runtime: the clock, the expiry of timers and their callbacks\<close>

text \<open>Time passes: the clock moves forward by \<open>d\<close> (not at all when \<open>d\<close> is negative).\<close>

definition advance :: "int \<Rightarrow> world \<Rightarrow> world" where
  "advance d w = w\<lparr>now := now w + (if d \<le> 0 then 0 else d)\<rparr>"

text \<open>
  The runtime expires a timer that is waiting and due: the timer stops waiting and its
  callback is started in a goroutine of its own. The callback begins by taking the lock
  of the manager (line 91); until it has it, the callback is pending. A timer that is
  not waiting, or not yet due, cannot expire: the result is \<open>None\<close>. The runtime gets
  to a due timer at some time not before its deadline; as long as it has not, the timer
  still waits and \<^verbatim>\<open>Stop\<close> still stops it.
\<close>

definition expire :: "timer \<Rightarrow> world \<Rightarrow> world option" where
  "expire t w =
     (if t < length (rtimers w) \<and> waiting (rtimers w ! t) \<and> deadline (rtimers w ! t) \<le> now w
      then Some (w\<lparr>rtimers := (rtimers w)[t := (rtimers w ! t)\<lparr>waiting := False\<rparr>],
                   pending := pending w @ [t]\<rparr>)
      else None)"

text \<open>
  A pending callback takes the lock and runs \<open>expireKey\<close> on the key it captured.
  Nothing takes a callback out of \<open>pending\<close> but its own run: \<^verbatim>\<open>Stop\<close> on a timer that
  has expired does nothing (it returns false, and lines 71, 95 and 141 drop the result).
\<close>

definition callback :: "timer \<Rightarrow> world \<Rightarrow> world option" where
  "callback t w =
     (if t \<in> set (pending w) \<and> t < length (rtimers w)
      then Some (expireKey (cbKey (rtimers w ! t)) (w\<lparr>pending := removeAll t (pending w)\<rparr>))
      else None)"

text \<open>A timer fires: it expires and its callback runs at once, nothing in between.\<close>

definition fire :: "timer \<Rightarrow> world \<Rightarrow> world option" where
  "fire t w = (case expire t w of None \<Rightarrow> None | Some w' \<Rightarrow> callback t w')"

text \<open>The state a call leaves behind, whether it returned or panicked.\<close>

definition stateAfter :: "world result \<Rightarrow> world" where
  "stateAfter r = (case r of Inl (e, w) \<Rightarrow> w | Inr w \<Rightarrow> w)"

definition panicOf :: "world result \<Rightarrow> error option" where
  "panicOf r = (case r of Inl (e, w) \<Rightarrow> Some e | Inr w \<Rightarrow> None)"

text \<open>The values a channel has been sent, oldest first.\<close>

definition received :: "chan \<Rightarrow> world \<Rightarrow> dyn list" where
  "received ch w = map snd (filter (\<lambda>p. fst p = ch) (sent w))"

section \<open>Executions\<close>

text \<open>
  What can happen to a store: a call of one of its methods, the passing of time, the
  runtime expiring a timer, or a pending callback running. A call of \<open>Set\<close> that panics
  counts as a step too (the fault may be recovered by the caller; the deferred unlock
  has released the lock).
\<close>

datatype event =
    ESet string dyn
  | ESetWithTimeout string dyn int
  | EDelete string
  | ESubscribe string chan bool
  | EAdvance int
  | EExpire timer
  | ECallback timer

fun step :: "event \<Rightarrow> world \<Rightarrow> world option" where
  "step (ESet key value) w = Some (stateAfter (Set key value w))"
| "step (ESetWithTimeout key value duration) w =
     Some (stateAfter (SetWithTimeout key value duration w))"
| "step (EDelete key) w = Some (Delete key w)"
| "step (ESubscribe key ch conditional) w = Some (Subscribe key ch conditional w)"
| "step (EAdvance d) w = Some (advance d w)"
| "step (EExpire t) w = expire t w"
| "step (ECallback t) w = callback t w"

fun run :: "event list \<Rightarrow> world \<Rightarrow> world option" where
  "run [] w = Some w"
| "run (e # es) w = (case step e w of None \<Rightarrow> None | Some w' \<Rightarrow> run es w')"

text \<open>
  The key an event operates on, in the state where it happens: the key of a call, the
  key captured by the callback of the timer that expires or whose callback runs; the
  passing of time has none.
\<close>

fun eventKey :: "world \<Rightarrow> event \<Rightarrow> string option" where
  "eventKey w (ESet key value) = Some key"
| "eventKey w (ESetWithTimeout key value duration) = Some key"
| "eventKey w (EDelete key) = Some key"
| "eventKey w (ESubscribe key ch conditional) = Some key"
| "eventKey w (EAdvance d) = None"
| "eventKey w (EExpire t) =
     (if t < length (rtimers w) then Some (cbKey (rtimers w ! t)) else None)"
| "eventKey w (ECallback t) =
     (if t < length (rtimers w) then Some (cbKey (rtimers w ! t)) else None)"

text \<open>\<open>runOff k es w\<close> runs the events \<open>es\<close>, none of which operates on the key \<open>k\<close>.\<close>

fun runOff :: "string \<Rightarrow> event list \<Rightarrow> world \<Rightarrow> world option" where
  "runOff k [] w = Some w"
| "runOff k (e # es) w =
     (if eventKey w e = Some k then None
      else case step e w of None \<Rightarrow> None | Some w' \<Rightarrow> runOff k es w')"

text \<open>The states of a store: those an execution reaches from a new manager.\<close>

inductive reachable :: "world \<Rightarrow> bool" where
  boot: "reachable boot"
| step: "reachable w \<Longrightarrow> step e w = Some w' \<Longrightarrow> reachable w'"

text \<open>
  Four facts that hold in every state of a store: a recorded timer exists and its
  callback holds the key it is recorded under; a timer that waits is the one recorded
  for its key; a key with a recorded timer has a value; a pending callback is the
  callback of a timer that exists and no longer waits.
\<close>

definition timersRecorded :: "world \<Rightarrow> bool" where
  "timersRecorded w =
     (\<forall>k t. timers (ssm w) k = Some t \<longrightarrow> t < length (rtimers w) \<and> cbKey (rtimers w ! t) = k)"

definition waitingRecorded :: "world \<Rightarrow> bool" where
  "waitingRecorded w =
     (\<forall>t. t < length (rtimers w) \<and> waiting (rtimers w ! t)
        \<longrightarrow> timers (ssm w) (cbKey (rtimers w ! t)) = Some t)"

definition timedHaveValue :: "world \<Rightarrow> bool" where
  "timedHaveValue w = (\<forall>k. timers (ssm w) k \<noteq> None \<longrightarrow> stateMap (ssm w) k \<noteq> None)"

definition pendingExist :: "world \<Rightarrow> bool" where
  "pendingExist w =
     (\<forall>t \<in> set (pending w). t < length (rtimers w) \<and> \<not> waiting (rtimers w ! t))"

text \<open>
  \<open>onlyTimer key t w\<close>: the timer \<open>t\<close> is a timer of the key, and no other timer of the
  key waits or has its callback pending.
\<close>

definition onlyTimer :: "string \<Rightarrow> timer \<Rightarrow> world \<Rightarrow> bool" where
  "onlyTimer key t w =
     (t < length (rtimers w) \<and> cbKey (rtimers w ! t) = key
      \<and> (\<forall>t'. t' < length (rtimers w) \<and> cbKey (rtimers w ! t') = key
                \<and> (waiting (rtimers w ! t') \<or> t' \<in> set (pending w))
             \<longrightarrow> t' = t))"

text \<open>
  The delivery rule in the words of the specification: a subscriber is sent the new
  value when its conditional flag is false, or the key did not exist, or the previous
  value is not equal to the new one, by the equality of the values' dynamic type.
\<close>

definition specDelivers :: "bool \<Rightarrow> dyn \<Rightarrow> dyn \<Rightarrow> Subscription \<Rightarrow> bool" where
  "specDelivers existed oldValue value sub =
     (\<not> ConditionalNotifications sub \<or> \<not> existed \<or> iface_eq oldValue value = Inr False)"

text \<open>The expiration notification for a key, as a value sent on a channel.\<close>

definition expirationOf :: "string \<Rightarrow> dyn" where
  "expirationOf key = VExpirationNotification \<lparr>Key = key\<rparr>"

text \<open>One send of the value \<open>v\<close> to each subscription of the list, in its order.\<close>

definition deliveries :: "Subscription list \<Rightarrow> dyn \<Rightarrow> (chan \<times> dyn) list" where
  "deliveries subs v = map (\<lambda>sub. (Channel sub, v)) subs"

text \<open>The state with the timer recorded for a key, if there is one, stopped.\<close>

definition stopRecorded :: "string \<Rightarrow> world \<Rightarrow> world" where
  "stopRecorded key w = (case timers (ssm w) key of Some t \<Rightarrow> stopTimer t w | None \<Rightarrow> w)"

text \<open>
  \<open>armed key t dl subs w\<close>: in the state \<open>w\<close> the timer \<open>t\<close> is the one recorded for
  the key, it waits, it is due at \<open>dl\<close>, its callback expires the key, and the key has
  the subscriptions \<open>subs\<close>.
\<close>

definition armed :: "string \<Rightarrow> timer \<Rightarrow> int \<Rightarrow> Subscription list \<Rightarrow> world \<Rightarrow> bool" where
  "armed key t dl subs w =
     (timersRecorded w \<and> timers (ssm w) key = Some t \<and> t < length (rtimers w)
      \<and> waiting (rtimers w ! t) \<and> cbKey (rtimers w ! t) = key
      \<and> deadline (rtimers w ! t) = dl \<and> subscribersOf w key = subs)"

text \<open>The expiration notifications of a key sent so far, with their channels.\<close>

definition expirations :: "string \<Rightarrow> world \<Rightarrow> (chan \<times> dyn) list" where
  "expirations key w = filter (\<lambda>p. snd p = expirationOf key) (sent w)"

text \<open>
  An event is quiet for a key when it is no call on that key and no call that stores, under
  another key, a value that is itself the expiration notification of the key (a
  subscriber of both keys could not tell it from a real one). The passing of time, the
  expiry of any timer and the run of any callback are quiet.
\<close>

fun quiet :: "string \<Rightarrow> event \<Rightarrow> bool" where
  "quiet key (ESet k v) = (k \<noteq> key \<and> v \<noteq> expirationOf key)"
| "quiet key (ESetWithTimeout k v d) = (k \<noteq> key \<and> v \<noteq> expirationOf key)"
| "quiet key (EDelete k) = (k \<noteq> key)"
| "quiet key (ESubscribe k ch c) = (k \<noteq> key)"
| "quiet key (EAdvance d) = True"
| "quiet key (EExpire t) = True"
| "quiet key (ECallback t) = True"

section \<open>Reading the store\<close>

declare iface_eq.simps [simp del]

lemma lookup_upd_same: "lookup (m(key \<mapsto> v)) key = (v, True)"
  by (simp add: lookup_def)

lemma stateAfter_Inr: "stateAfter (Inr w) = w"
  by (simp add: stateAfter_def)

lemma notifyLoop_frame:
  "\<exists>xs. stateAfter (notifyLoop subs value exists oldValue w) = w\<lparr>sent := sent w @ xs\<rparr>"
proof (induction subs arbitrary: w)
  case Nil
  have "stateAfter (notifyLoop [] value exists oldValue w) = w\<lparr>sent := sent w @ []\<rparr>"
    by (simp add: stateAfter_def)
  then show ?case by blast
next
  case (Cons sub subs)
  show ?case
  proof (cases "notifyCond sub exists oldValue value")
    case (Inl e)
    then have "stateAfter (notifyLoop (sub # subs) value exists oldValue w) = w\<lparr>sent := sent w @ []\<rparr>"
      by (simp add: stateAfter_def)
    then show ?thesis by blast
  next
    case (Inr c)
    define w' where "w' = (if c then send (Channel sub) value w else w)"
    obtain ys where ys: "w' = w\<lparr>sent := sent w @ ys\<rparr>"
    proof (cases c)
      case True
      then have "w' = w\<lparr>sent := sent w @ [(Channel sub, value)]\<rparr>"
        by (simp add: w'_def send_def)
      then show ?thesis using that by blast
    next
      case False
      then have "w' = w\<lparr>sent := sent w @ []\<rparr>" by (simp add: w'_def)
      then show ?thesis using that by blast
    qed
    from Cons.IH [of w'] obtain xs where
      "stateAfter (notifyLoop subs value exists oldValue w') = w'\<lparr>sent := sent w' @ xs\<rparr>"
      by blast
    then have "stateAfter (notifyLoop (sub # subs) value exists oldValue w)
                 = w\<lparr>sent := sent w @ (ys @ xs)\<rparr>"
      using Inr by (simp add: w'_def [symmetric] ys)
    then show ?thesis by blast
  qed
qed

lemma notifyLoop_ssm: "ssm (stateAfter (notifyLoop subs value exists oldValue w)) = ssm w"
proof -
  obtain xs where "stateAfter (notifyLoop subs value exists oldValue w) = w\<lparr>sent := sent w @ xs\<rparr>"
    using notifyLoop_frame by blast
  then show ?thesis by simp
qed

lemma notifyLoop_rtimers:
  "rtimers (stateAfter (notifyLoop subs value exists oldValue w)) = rtimers w"
proof -
  obtain xs where "stateAfter (notifyLoop subs value exists oldValue w) = w\<lparr>sent := sent w @ xs\<rparr>"
    using notifyLoop_frame by blast
  then show ?thesis by simp
qed

lemma notifyLoop_now: "now (stateAfter (notifyLoop subs value exists oldValue w)) = now w"
proof -
  obtain xs where "stateAfter (notifyLoop subs value exists oldValue w) = w\<lparr>sent := sent w @ xs\<rparr>"
    using notifyLoop_frame by blast
  then show ?thesis by simp
qed

text \<open>
  C2. After \<open>Set key value\<close>, whether the call returned or panicked in the notification
  loop, \<open>Get key\<close> gives \<open>(value, True)\<close>.
\<close>

theorem Get_after_Set: "Get key (stateAfter (Set key value w)) = (value, True)"
proof -
  obtain oldValue exists where l: "lookup (stateMap (ssm w)) key = (oldValue, exists)"
    by (cases "lookup (stateMap (ssm w)) key")
  have "ssm (stateAfter (Set key value w)) = ssm (putState key value w)"
    by (simp add: Set_def l notifySubscribers_def notifyLoop_ssm)
  then show ?thesis
    by (simp add: Get_def putState_def lookup_upd_same)
qed

theorem Get_after_Set_witness:
  "Get ''k'' (stateAfter (Set ''k'' (VSlice [VInt 1])
      (stateAfter (Set ''k'' (VSlice [VInt 1]) (Subscribe ''k'' 3 True boot)))))
     = (VSlice [VInt 1], True)"
  by (rule Get_after_Set)

text \<open>
  C9. \<open>GetStruct\<close> and \<open>Get\<close> return the same pair for every key and every state.
\<close>

theorem GetStruct_eq_Get: "GetStruct key w = Get key w"
  by (simp add: GetStruct_def Get_def lookup_def split: option.splits)

theorem GetStruct_eq_Get_witness:
  "GetStruct ''k'' (putState ''k'' (VInt 1) boot) = (VInt 1, True)
   \<and> GetStruct ''j'' (putState ''k'' (VInt 1) boot) = (VNil, False)"
  using GetStruct_eq_Get [of "''k''" "putState ''k'' (VInt 1) boot"]
    GetStruct_eq_Get [of "''j''" "putState ''k'' (VInt 1) boot"]
  by (simp add: Get_def lookup_def putState_def boot_def NewSharedStateManager_def)

text \<open>
  C8. \<open>GetString key\<close> gives found = false when the key is absent or holds a value that
  is not a string, and the stored string with found = true when the key holds a string.
  It is a function of the state alone and returns no state: it changes nothing.
\<close>

theorem GetString_cases:
  "GetString key w =
     (case stateMap (ssm w) key of
        None \<Rightarrow> ('''', False)
      | Some (VString s) \<Rightarrow> (s, True)
      | Some other \<Rightarrow> ('''', False))"
  by (simp add: GetString_def lookup_def assertString_def split: option.splits dyn.splits)

theorem GetString_cases_witness:
  "GetString ''s'' (putState ''n'' (VInt 1) (putState ''s'' (VString ''hi'') boot)) = (''hi'', True)
   \<and> GetString ''n'' (putState ''n'' (VInt 1) (putState ''s'' (VString ''hi'') boot)) = ('''', False)
   \<and> GetString ''j'' (putState ''n'' (VInt 1) (putState ''s'' (VString ''hi'') boot)) = ('''', False)"
  using GetString_cases [of "''s''" "putState ''n'' (VInt 1) (putState ''s'' (VString ''hi'') boot)"]
    GetString_cases [of "''n''" "putState ''n'' (VInt 1) (putState ''s'' (VString ''hi'') boot)"]
    GetString_cases [of "''j''" "putState ''n'' (VInt 1) (putState ''s'' (VString ''hi'') boot)"]
  by (simp add: putState_def boot_def NewSharedStateManager_def)

lemma notifyLoop_unconditional:
  "notifyLoop subs value False oldValue w = Inr (w\<lparr>sent := sent w @ deliveries subs value\<rparr>)"
  by (induction subs arbitrary: w) (simp_all add: notifyCond_def send_def deliveries_def)

lemma expireLoop_sent: "expireLoop subs n w = w\<lparr>sent := sent w @ deliveries subs n\<rparr>"
  by (induction subs arbitrary: w) (simp_all add: send_def deliveries_def)

lemma notifyCond_Inr:
  "notifyCond sub exists oldValue value = Inr c \<Longrightarrow> c = specDelivers exists oldValue value sub"
  by (auto simp: notifyCond_def specDelivers_def iface_neq_def split: if_splits sum.splits)

lemma notifyCond_Inl_iff:
  "(\<exists>e. notifyCond sub exists oldValue value = Inl e) \<longleftrightarrow>
     ConditionalNotifications sub \<and> exists \<and> (\<exists>e. iface_eq oldValue value = Inl e)"
  by (auto simp: notifyCond_def iface_neq_def split: if_splits sum.splits)

lemma notifyLoop_returns:
  "notifyLoop subs value exists oldValue w = Inr w' \<Longrightarrow>
     w' = w\<lparr>sent := sent w @ deliveries (filter (specDelivers exists oldValue value) subs) value\<rparr>"
proof (induction subs arbitrary: w)
  case Nil
  then show ?case by (simp add: deliveries_def)
next
  case (Cons sub subs)
  from Cons.prems obtain c where c: "notifyCond sub exists oldValue value = Inr c"
    by (cases "notifyCond sub exists oldValue value") simp_all
  then have cd: "c = specDelivers exists oldValue value sub" by (rule notifyCond_Inr)
  from Cons.prems c have
    "notifyLoop subs value exists oldValue (if c then send (Channel sub) value w else w) = Inr w'"
    by simp
  from Cons.IH [OF this] show ?case
    using cd by (cases c) (simp_all add: send_def deliveries_def)
qed

lemma notifyLoop_panics_iff:
  "(\<exists>e w'. notifyLoop subs value exists oldValue w = Inl (e, w')) \<longleftrightarrow>
     exists \<and> (\<exists>e. iface_eq oldValue value = Inl e)
       \<and> (\<exists>sub \<in> set subs. ConditionalNotifications sub)"
proof (induction subs arbitrary: w)
  case Nil
  then show ?case by simp
next
  case (Cons sub subs)
  show ?case
  proof (cases "notifyCond sub exists oldValue value")
    case (Inl e)
    then have "ConditionalNotifications sub \<and> exists \<and> (\<exists>e. iface_eq oldValue value = Inl e)"
      using notifyCond_Inl_iff [of sub exists oldValue "value"] by blast
    then show ?thesis using Inl by simp
  next
    case (Inr c)
    then have "\<not> (ConditionalNotifications sub \<and> exists
       \<and> (\<exists>e. iface_eq oldValue value = Inl e))"
      using notifyCond_Inl_iff [of sub exists oldValue "value"] by auto
    then show ?thesis using Inr Cons.IH by auto
  qed
qed

section \<open>What each method does to the state\<close>

lemma stopTimer_fields:
  "ssm (stopTimer t w) = ssm w" "sent (stopTimer t w) = sent w" "now (stopTimer t w) = now w"
  "pending (stopTimer t w) = pending w"
  "length (rtimers (stopTimer t w)) = length (rtimers w)"
  by (simp_all add: stopTimer_def)

lemma stopTimer_nth:
  "i < length (rtimers w) \<Longrightarrow>
     rtimers (stopTimer t w) ! i =
       (if i = t then (rtimers w ! i)\<lparr>waiting := False\<rparr> else rtimers w ! i)"
  by (simp add: stopTimer_def nth_list_update)

lemma stopTimer_cbKey:
  "i < length (rtimers w) \<Longrightarrow> cbKey (rtimers (stopTimer t w) ! i) = cbKey (rtimers w ! i)"
  by (simp add: stopTimer_nth)

lemma stopTimer_deadline:
  "i < length (rtimers w) \<Longrightarrow> deadline (rtimers (stopTimer t w) ! i) = deadline (rtimers w ! i)"
  by (simp add: stopTimer_nth)

lemma stopTimer_waiting:
  "i < length (rtimers w) \<Longrightarrow>
     waiting (rtimers (stopTimer t w) ! i) = (i \<noteq> t \<and> waiting (rtimers w ! i))"
  by (simp add: stopTimer_nth)

lemma Set_result:
  "\<exists>xs. stateAfter (Set key value w) = (putState key value w)\<lparr>sent := sent w @ xs\<rparr>"
proof -
  obtain oldValue exists where l: "lookup (stateMap (ssm w)) key = (oldValue, exists)"
    by (cases "lookup (stateMap (ssm w)) key")
  obtain xs where "stateAfter (notifyLoop (subscribersOf (putState key value w) key) value exists oldValue
      (putState key value w)) = (putState key value w)\<lparr>sent := sent (putState key value w) @ xs\<rparr>"
    using notifyLoop_frame by blast
  then have "stateAfter (Set key value w) = (putState key value w)\<lparr>sent := sent w @ xs\<rparr>"
    by (simp add: Set_def l notifySubscribers_def putState_def)
  then show ?thesis by blast
qed

lemma Set_fields:
  "ssm (stateAfter (Set key value w)) = (ssm w)\<lparr>stateMap := (stateMap (ssm w))(key \<mapsto> value)\<rparr>"
  "rtimers (stateAfter (Set key value w)) = rtimers w"
  "now (stateAfter (Set key value w)) = now w"
  "pending (stateAfter (Set key value w)) = pending w"
proof -
  obtain xs where r: "stateAfter (Set key value w) = (putState key value w)\<lparr>sent := sent w @ xs\<rparr>"
    using Set_result by blast
  show "ssm (stateAfter (Set key value w)) = (ssm w)\<lparr>stateMap := (stateMap (ssm w))(key \<mapsto> value)\<rparr>"
    by (simp add: r putState_def)
  show "rtimers (stateAfter (Set key value w)) = rtimers w" by (simp add: r putState_def)
  show "now (stateAfter (Set key value w)) = now w" by (simp add: r putState_def)
  show "pending (stateAfter (Set key value w)) = pending w" by (simp add: r putState_def)
qed

lemma subscribersOf_cong:
  "subscribers (ssm w') = subscribers (ssm w) \<Longrightarrow> subscribersOf w' key = subscribersOf w key"
  by (simp add: subscribersOf_def)

lemma stopRecorded_fields:
  "ssm (stopRecorded key w) = ssm w" "sent (stopRecorded key w) = sent w"
  "now (stopRecorded key w) = now w" "pending (stopRecorded key w) = pending w"
  "length (rtimers (stopRecorded key w)) = length (rtimers w)"
  by (simp_all add: stopRecorded_def stopTimer_fields split: option.splits)

lemma SetWithTimeout_result:
  "SetWithTimeout key value duration w =
     Inr \<lparr>ssm = (ssm w)\<lparr>stateMap := (stateMap (ssm w))(key \<mapsto> value),
                        timers := (timers (ssm w))(key \<mapsto> length (rtimers w))\<rparr>,
          rtimers = rtimers (stopRecorded key w) @
             [\<lparr>deadline = now w + (if duration \<le> 0 then 0 else duration),
               cbKey = key, waiting = True\<rparr>],
          pending = pending w,
          sent = sent w @ deliveries (subscribersOf w key) value,
          now = now w\<rparr>"
proof -
  have s: "subscribersOf (putState key value w) key = subscribersOf w key"
    by (simp add: subscribersOf_def putState_def)
  show ?thesis
    by (cases w)
       (simp add: SetWithTimeout_def notifySubscribers_def notifyLoop_unconditional
        subscribersOf_def putState_def afterFunc_def putTimer_def stopRecorded_def
        stopTimer_def split: option.splits)
qed

lemma expireKey_result:
  "expireKey key w =
     \<lparr>ssm = (ssm w)\<lparr>stateMap := (stateMap (ssm w))(key := None),
                    timers := (timers (ssm w))(key := None)\<rparr>,
      rtimers = rtimers (stopRecorded key w),
      pending = pending w,
      sent = sent w @ deliveries (subscribersOf w key) (expirationOf key),
      now = now w\<rparr>"
  by (cases w; cases "timers (ssm w) key")
     (simp_all add: expireKey_def Let_def deleteState_def deleteTimer_def stopRecorded_def
        stopTimer_def expireLoop_sent subscribersOf_def expirationOf_def fun_upd_idem)

lemma Delete_eq_expireKey: "Delete key w = expireKey key w"
  by (simp add: Delete_def expireKey_def)

lemma expire_Some:
  "expire t w = Some w' \<longleftrightarrow>
     t < length (rtimers w) \<and> waiting (rtimers w ! t) \<and> deadline (rtimers w ! t) \<le> now w
       \<and> w' = (stopTimer t w)\<lparr>pending := pending w @ [t]\<rparr>"
  by (auto simp: expire_def stopTimer_def)

lemma callback_Some:
  "callback t w = Some w' \<longleftrightarrow>
     t \<in> set (pending w) \<and> t < length (rtimers w)
       \<and> w' = expireKey (cbKey (rtimers w ! t)) (w\<lparr>pending := removeAll t (pending w)\<rparr>)"
  by (auto simp: callback_def)

lemma fire_Some:
  "fire t w = Some w' \<longleftrightarrow>
     t < length (rtimers w) \<and> waiting (rtimers w ! t) \<and> deadline (rtimers w ! t) \<le> now w
       \<and> w' = expireKey (cbKey (rtimers w ! t))
                ((stopTimer t w)\<lparr>pending := removeAll t (pending w)\<rparr>)"
proof (cases "expire t w")
  case None
  then show ?thesis by (auto simp: fire_def expire_def)
next
  case (Some w1)
  then have e: "t < length (rtimers w)" "waiting (rtimers w ! t)"
      "deadline (rtimers w ! t) \<le> now w" "w1 = (stopTimer t w)\<lparr>pending := pending w @ [t]\<rparr>"
    by (simp_all add: expire_Some)
  have "callback t w1 = Some (expireKey (cbKey (rtimers w ! t))
          ((stopTimer t w)\<lparr>pending := removeAll t (pending w)\<rparr>))"
    using e(1) by (simp add: callback_def e(4) stopTimer_fields stopTimer_cbKey)
  with Some e show ?thesis by (auto simp: fire_def)
qed

section \<open>Timed sets notify every subscriber\<close>

text \<open>
  C3. \<open>SetWithTimeout key value duration\<close> returns, in every state, and has sent the new
  value once to every subscription of the key, in the order of registration, whatever
  the conditional flags and whatever the key held before.
\<close>

theorem SetWithTimeout_notifies_all:
  "\<exists>w'. SetWithTimeout key value duration w = Inr w'
        \<and> sent w' = sent w @ deliveries (subscribersOf w key) value"
  by (simp add: SetWithTimeout_result)

theorem SetWithTimeout_notifies_all_witness:
  "\<exists>w'. SetWithTimeout ''k'' (VInt 7) 5
           (stateAfter (Set ''k'' (VInt 7) (Subscribe ''k'' 1 False (Subscribe ''k'' 0 True boot)))) = Inr w'
        \<and> sent w' = [(0, VInt 7), (1, VInt 7), (0, VInt 7), (1, VInt 7)]"
  using SetWithTimeout_notifies_all [of "''k''" "VInt 7" 5
           "stateAfter (Set ''k'' (VInt 7) (Subscribe ''k'' 1 False (Subscribe ''k'' 0 True boot)))"]
  by (simp add: Set_def lookup_def notifySubscribers_def subscribersOf_def putState_def
      Subscribe_def boot_def NewSharedStateManager_def notifyCond_def send_def stateAfter_def
      deliveries_def)

section \<open>The panic of Set\<close>

lemma Set_returns:
  assumes "Set key value w = Inr w'"
  shows "sent w' = sent w @
           deliveries (filter (specDelivers (stateMap (ssm w) key \<noteq> None)
                                 (fst (lookup (stateMap (ssm w)) key)) value)
                         (subscribersOf w key)) value"
proof -
  obtain oldValue exists where l: "lookup (stateMap (ssm w)) key = (oldValue, exists)"
    by (cases "lookup (stateMap (ssm w)) key")
  then have e: "exists = (stateMap (ssm w) key \<noteq> None)"
    by (auto simp: lookup_def split: option.splits)
  have s: "subscribersOf (putState key value w) key = subscribersOf w key"
    by (simp add: subscribersOf_def putState_def)
  from assms have
    "notifyLoop (subscribersOf w key) value exists oldValue (putState key value w) = Inr w'"
    by (simp add: Set_def l notifySubscribers_def s)
  from notifyLoop_returns [OF this] show ?thesis
    by (simp add: l e putState_def)
qed

lemma Set_panics_iff:
  "(\<exists>e w'. Set key value w = Inl (e, w')) \<longleftrightarrow>
     (\<exists>oldValue. stateMap (ssm w) key = Some oldValue \<and> (\<exists>e. iface_eq oldValue value = Inl e))
       \<and> (\<exists>sub \<in> set (subscribersOf w key). ConditionalNotifications sub)"
proof -
  obtain oldValue exists where l: "lookup (stateMap (ssm w)) key = (oldValue, exists)"
    by (cases "lookup (stateMap (ssm w)) key")
  have s: "subscribersOf (putState key value w) key = subscribersOf w key"
    by (simp add: subscribersOf_def putState_def)
  have "(\<exists>e w'. Set key value w = Inl (e, w')) \<longleftrightarrow>
     (\<exists>e w'. notifyLoop (subscribersOf w key) value exists oldValue (putState key value w) = Inl (e, w'))"
    by (simp add: Set_def l notifySubscribers_def s)
  also have "\<dots> \<longleftrightarrow> exists \<and> (\<exists>e. iface_eq oldValue value = Inl e)
       \<and> (\<exists>sub \<in> set (subscribersOf w key). ConditionalNotifications sub)"
    by (rule notifyLoop_panics_iff)
  also have "\<dots> \<longleftrightarrow>
     (\<exists>oldValue. stateMap (ssm w) key = Some oldValue \<and> (\<exists>e. iface_eq oldValue value = Inl e))
       \<and> (\<exists>sub \<in> set (subscribersOf w key). ConditionalNotifications sub)"
    using l by (auto simp: lookup_def split: option.splits)
  finally show ?thesis .
qed

text \<open>
  C10. A store with one conditional subscriber of the key \<open>k\<close>, the key set to a slice:
  setting the key to a slice again panics, in the comparison of the old and the new
  value.
\<close>

theorem Set_slice_twice_panics:
  "panicOf (Set ''k'' (VSlice [VInt 1])
      (stateAfter (Set ''k'' (VSlice [VInt 1]) (Subscribe ''k'' 0 True boot))))
     = Some (UncomparableType TSlice)"
  by (simp add: Set_def lookup_def notifySubscribers_def subscribersOf_def putState_def
      Subscribe_def boot_def NewSharedStateManager_def notifyCond_def send_def stateAfter_def
      panicOf_def iface_neq_def iface_eq.simps)

text \<open>
  With a conditional subscriber (channel 3) registered before an unconditional one
  (channel 4), the first \<open>Set\<close> of a slice sends it to both; the second \<open>Set\<close> of the
  same slice panics at the conditional subscriber, before the loop reaches the
  unconditional one, which has then been sent one value and not two.
\<close>

lemma Set_slice_twice_leaves_loop:
  "panicOf (Set ''k'' (VSlice [VInt 1])
      (stateAfter (Set ''k'' (VSlice [VInt 1])
         (Subscribe ''k'' 4 False (Subscribe ''k'' 3 True boot)))))
     = Some (UncomparableType TSlice)
   \<and> received 4 (stateAfter (Set ''k'' (VSlice [VInt 1])
      (stateAfter (Set ''k'' (VSlice [VInt 1])
         (Subscribe ''k'' 4 False (Subscribe ''k'' 3 True boot))))))
     = [VSlice [VInt 1]]"
  by (simp add: Set_def lookup_def notifySubscribers_def subscribersOf_def putState_def
      Subscribe_def boot_def NewSharedStateManager_def notifyCond_def send_def stateAfter_def
      panicOf_def received_def iface_neq_def iface_eq.simps)

section \<open>A plain set and the timers\<close>

lemma Get_expireKey: "Get key (expireKey key w) = (VNil, False)"
  by (simp add: expireKey_result Get_def lookup_def)

text \<open>
  C7. \<open>Set\<close> leaves the timer map, the subscriber registry, the timer objects, the
  pending callbacks and the clock as they were, whether it returns or panics. So a timer that waits for the key
  and is due still fires after the \<open>Set\<close>, and removes the value just written.
\<close>

theorem Set_keeps_timers:
  "timers (ssm (stateAfter (Set key value w))) = timers (ssm w)
   \<and> subscribers (ssm (stateAfter (Set key value w))) = subscribers (ssm w)
   \<and> rtimers (stateAfter (Set key value w)) = rtimers w
   \<and> pending (stateAfter (Set key value w)) = pending w
   \<and> now (stateAfter (Set key value w)) = now w
   \<and> (\<forall>t. t < length (rtimers w) \<and> waiting (rtimers w ! t) \<and> cbKey (rtimers w ! t) = key
            \<and> deadline (rtimers w ! t) \<le> now w
         \<longrightarrow> (\<exists>w'. fire t (stateAfter (Set key value w)) = Some w'
                   \<and> Get key w' = (VNil, False)))"
  by (simp add: Set_fields fire_Some Get_expireKey)

theorem Set_keeps_timers_witness:
  "(\<exists>w'. fire 0 (stateAfter (Set ''k'' (VInt 2)
             (advance 5 (stateAfter (SetWithTimeout ''k'' (VInt 1) 5 boot))))) = Some w'
        \<and> Get ''k'' w' = (VNil, False))
   \<and> timers (ssm (stateAfter (Set ''k'' (VInt 2)
             (advance 5 (stateAfter (SetWithTimeout ''k'' (VInt 1) 5 boot)))))) ''k'' = Some 0"
  using Set_keeps_timers [of "''k''" "VInt 2"
      "advance 5 (stateAfter (SetWithTimeout ''k'' (VInt 1) 5 boot))"]
  by (simp add: SetWithTimeout_result stateAfter_def advance_def boot_def
      NewSharedStateManager_def stopRecorded_def)

section \<open>Facts of every state of a store\<close>

lemma stopRecorded_cbKey:
  "i < length (rtimers w) \<Longrightarrow> cbKey (rtimers (stopRecorded key w) ! i) = cbKey (rtimers w ! i)"
  by (simp add: stopRecorded_def stopTimer_cbKey split: option.splits)

lemma stopRecorded_deadline:
  "i < length (rtimers w) \<Longrightarrow>
     deadline (rtimers (stopRecorded key w) ! i) = deadline (rtimers w ! i)"
  by (simp add: stopRecorded_def stopTimer_deadline split: option.splits)

lemma stopRecorded_waiting:
  "i < length (rtimers w) \<Longrightarrow>
     waiting (rtimers (stopRecorded key w) ! i) =
       (waiting (rtimers w ! i) \<and> timers (ssm w) key \<noteq> Some i)"
  by (auto simp: stopRecorded_def stopTimer_waiting split: option.splits)

lemma Subscribe_fields:
  "stateMap (ssm (Subscribe key ch c w)) = stateMap (ssm w)"
  "timers (ssm (Subscribe key ch c w)) = timers (ssm w)"
  "rtimers (Subscribe key ch c w) = rtimers w"
  "pending (Subscribe key ch c w) = pending w"
  "sent (Subscribe key ch c w) = sent w"
  "now (Subscribe key ch c w) = now w"
  by (simp_all add: Subscribe_def)

lemma advance_fields:
  "ssm (advance d w) = ssm w" "rtimers (advance d w) = rtimers w" "sent (advance d w) = sent w"
  "pending (advance d w) = pending w"
  by (simp_all add: advance_def)

lemma pending_update_facts:
  "timersRecorded (w\<lparr>pending := p\<rparr>) = timersRecorded w"
  "waitingRecorded (w\<lparr>pending := p\<rparr>) = waitingRecorded w"
  "timedHaveValue (w\<lparr>pending := p\<rparr>) = timedHaveValue w"
  by (simp_all add: timersRecorded_def waitingRecorded_def timedHaveValue_def)

lemma timersRecorded_stopTimer: "timersRecorded w \<Longrightarrow> timersRecorded (stopTimer t w)"
  by (simp add: timersRecorded_def stopTimer_fields stopTimer_cbKey)

lemma timersRecorded_expireKey: "timersRecorded w \<Longrightarrow> timersRecorded (expireKey key w)"
  by (simp add: timersRecorded_def expireKey_result stopRecorded_fields stopRecorded_cbKey)

lemma timersRecorded_SetWithTimeout:
  "timersRecorded w \<Longrightarrow> timersRecorded (stateAfter (SetWithTimeout key value d w))"
  by (simp add: timersRecorded_def SetWithTimeout_result stateAfter_def stopRecorded_fields
      nth_append stopRecorded_cbKey less_Suc_eq)

lemma timersRecorded_step:
  assumes "timersRecorded w" and "step e w = Some w'"
  shows "timersRecorded w'"
proof (cases e)
  case (ESet key v)
  with assms show ?thesis by (auto simp: timersRecorded_def Set_fields)
next
  case (ESetWithTimeout key v d)
  with assms show ?thesis by (auto simp: timersRecorded_SetWithTimeout)
next
  case (EDelete key)
  with assms show ?thesis by (auto simp: Delete_eq_expireKey timersRecorded_expireKey)
next
  case (ESubscribe key ch c)
  with assms show ?thesis by (auto simp: timersRecorded_def Subscribe_fields)
next
  case (EAdvance d)
  with assms show ?thesis by (auto simp: timersRecorded_def advance_fields)
next
  case (EExpire t)
  with assms show ?thesis
    by (auto simp: expire_Some pending_update_facts timersRecorded_stopTimer)
next
  case (ECallback t)
  with assms show ?thesis
    by (auto simp: callback_Some pending_update_facts timersRecorded_expireKey)
qed

lemma waitingRecorded_stopTimer: "waitingRecorded w \<Longrightarrow> waitingRecorded (stopTimer t w)"
  by (auto simp: waitingRecorded_def stopTimer_fields stopTimer_cbKey stopTimer_waiting)

lemma waitingRecorded_expireKey: "waitingRecorded w \<Longrightarrow> waitingRecorded (expireKey key w)"
  by (auto simp: waitingRecorded_def expireKey_result stopRecorded_fields stopRecorded_cbKey
      stopRecorded_waiting)

lemma waitingRecorded_SetWithTimeout:
  "waitingRecorded w \<Longrightarrow> waitingRecorded (stateAfter (SetWithTimeout key value d w))"
  by (auto simp: waitingRecorded_def SetWithTimeout_result stateAfter_def stopRecorded_fields
      nth_append stopRecorded_cbKey stopRecorded_waiting less_Suc_eq)

lemma waitingRecorded_step:
  assumes "waitingRecorded w" and "step e w = Some w'"
  shows "waitingRecorded w'"
proof (cases e)
  case (ESet key v)
  with assms show ?thesis by (auto simp: waitingRecorded_def Set_fields)
next
  case (ESetWithTimeout key v d)
  with assms show ?thesis by (auto simp: waitingRecorded_SetWithTimeout)
next
  case (EDelete key)
  with assms show ?thesis by (auto simp: Delete_eq_expireKey waitingRecorded_expireKey)
next
  case (ESubscribe key ch c)
  with assms show ?thesis by (auto simp: waitingRecorded_def Subscribe_fields)
next
  case (EAdvance d)
  with assms show ?thesis by (auto simp: waitingRecorded_def advance_fields)
next
  case (EExpire t)
  with assms show ?thesis
    by (auto simp: expire_Some pending_update_facts waitingRecorded_stopTimer)
next
  case (ECallback t)
  with assms show ?thesis
    by (auto simp: callback_Some pending_update_facts waitingRecorded_expireKey)
qed

lemma timedHaveValue_expireKey: "timedHaveValue w \<Longrightarrow> timedHaveValue (expireKey key w)"
  by (simp add: timedHaveValue_def expireKey_result)

lemma timedHaveValue_step:
  assumes "timedHaveValue w" and "step e w = Some w'"
  shows "timedHaveValue w'"
proof (cases e)
  case (ESet key v)
  with assms show ?thesis by (auto simp: timedHaveValue_def Set_fields)
next
  case (ESetWithTimeout key v d)
  with assms show ?thesis
    by (auto simp: timedHaveValue_def SetWithTimeout_result stateAfter_def)
next
  case (EDelete key)
  with assms show ?thesis by (auto simp: Delete_eq_expireKey timedHaveValue_expireKey)
next
  case (ESubscribe key ch c)
  with assms show ?thesis by (auto simp: timedHaveValue_def Subscribe_fields)
next
  case (EAdvance d)
  with assms show ?thesis by (auto simp: timedHaveValue_def advance_fields)
next
  case (EExpire t)
  with assms(2) have "w' = (stopTimer t w)\<lparr>pending := pending w @ [t]\<rparr>"
    by (simp add: expire_Some)
  with assms(1) show ?thesis by (simp add: timedHaveValue_def stopTimer_fields)
next
  case (ECallback t)
  with assms show ?thesis
    by (auto simp: callback_Some pending_update_facts timedHaveValue_expireKey)
qed

lemma reachable_invariants:
  "reachable w \<Longrightarrow> timersRecorded w \<and> waitingRecorded w \<and> timedHaveValue w"
proof (induction rule: reachable.induct)
  case boot
  show ?case
    by (simp add: timersRecorded_def waitingRecorded_def timedHaveValue_def boot_def
        NewSharedStateManager_def)
next
  case (step w e w')
  then show ?case
    using timersRecorded_step waitingRecorded_step timedHaveValue_step by blast
qed

lemma run_reachable: "reachable w \<Longrightarrow> run es w = Some w' \<Longrightarrow> reachable w'"
proof (induction es arbitrary: w)
  case Nil
  then show ?case by simp
next
  case (Cons e es)
  then show ?case by (auto split: option.splits intro: reachable.step)
qed

lemma runOff_run: "runOff k es w = Some w' \<Longrightarrow> run es w = Some w'"
  by (induction es arbitrary: w) (auto split: option.splits if_splits)

section \<open>Timer objects along an execution\<close>

lemma timer_stopRecorded:
  assumes "t < length (rtimers w)"
  shows "t < length (rtimers (stopRecorded k w))
       \<and> cbKey (rtimers (stopRecorded k w) ! t) = cbKey (rtimers w ! t)
       \<and> deadline (rtimers (stopRecorded k w) ! t) = deadline (rtimers w ! t)
       \<and> (waiting (rtimers (stopRecorded k w) ! t) \<longrightarrow> waiting (rtimers w ! t))"
  using assms
  by (simp add: stopRecorded_fields stopRecorded_cbKey stopRecorded_deadline stopRecorded_waiting)

lemma timer_stopTimer:
  assumes "t < length (rtimers w)"
  shows "t < length (rtimers (stopTimer t' w))
       \<and> cbKey (rtimers (stopTimer t' w) ! t) = cbKey (rtimers w ! t)
       \<and> deadline (rtimers (stopTimer t' w) ! t) = deadline (rtimers w ! t)
       \<and> (waiting (rtimers (stopTimer t' w) ! t) \<longrightarrow> waiting (rtimers w ! t))"
  using assms
  by (simp add: stopTimer_fields stopTimer_cbKey stopTimer_deadline stopTimer_waiting)

text \<open>
  A step keeps every timer object that exists, with its key and its deadline; a timer that
  does not wait never waits again; the clock does not go back.
\<close>

lemma step_timer:
  assumes "t < length (rtimers w)" and "step e w = Some w'"
  shows "t < length (rtimers w')
       \<and> cbKey (rtimers w' ! t) = cbKey (rtimers w ! t)
       \<and> deadline (rtimers w' ! t) = deadline (rtimers w ! t)
       \<and> (waiting (rtimers w' ! t) \<longrightarrow> waiting (rtimers w ! t))"
proof (cases e)
  case (ESet k v)
  with assms show ?thesis by (auto simp: Set_fields)
next
  case (ESetWithTimeout k v d)
  with assms(2) have "rtimers w' = rtimers (stopRecorded k w) @
      [\<lparr>deadline = now w + (if d \<le> 0 then 0 else d), cbKey = k, waiting = True\<rparr>]"
    by (auto simp: SetWithTimeout_result stateAfter_Inr)
  with timer_stopRecorded [OF assms(1), of k] show ?thesis by (simp add: nth_append)
next
  case (EDelete k)
  with assms(2) have "rtimers w' = rtimers (stopRecorded k w)"
    by (auto simp: Delete_eq_expireKey expireKey_result)
  with timer_stopRecorded [OF assms(1), of k] show ?thesis by simp
next
  case (ESubscribe k ch c)
  with assms show ?thesis by (auto simp: Subscribe_fields)
next
  case (EAdvance d)
  with assms show ?thesis by (auto simp: advance_fields)
next
  case (EExpire t')
  with assms(2) have "rtimers w' = rtimers (stopTimer t' w)"
    by (auto simp: expire_Some)
  with timer_stopTimer [OF assms(1), of t'] show ?thesis by simp
next
  case (ECallback t')
  with assms(2) have
    "rtimers w' = rtimers (stopRecorded (cbKey (rtimers w ! t'))
                     (w\<lparr>pending := removeAll t' (pending w)\<rparr>))"
    by (auto simp: callback_Some expireKey_result)
  with timer_stopRecorded [of t "w\<lparr>pending := removeAll t' (pending w)\<rparr>"
      "cbKey (rtimers w ! t')"] assms(1)
  show ?thesis by simp
qed

text \<open>A callback becomes pending by the expiry of its timer and in no other way.\<close>

lemma step_pending:
  assumes "step e w = Some w'" and "t \<in> set (pending w')"
  shows "t \<in> set (pending w) \<or> e = EExpire t"
proof (cases e)
  case (ESet k v)
  with assms show ?thesis by (auto simp: Set_fields)
next
  case (ESetWithTimeout k v d)
  with assms show ?thesis by (auto simp: SetWithTimeout_result stateAfter_Inr)
next
  case (EDelete k)
  with assms show ?thesis by (auto simp: Delete_eq_expireKey expireKey_result)
next
  case (ESubscribe k ch c)
  with assms show ?thesis by (auto simp: Subscribe_fields)
next
  case (EAdvance d)
  with assms show ?thesis by (auto simp: advance_fields)
next
  case (EExpire t')
  with assms show ?thesis by (auto simp: expire_Some)
next
  case (ECallback t')
  with assms show ?thesis by (auto simp: callback_Some expireKey_result)
qed

lemma step_now: "step e w = Some w' \<Longrightarrow> now w \<le> now w'"
  by (cases e)
     (auto simp: Set_fields SetWithTimeout_result stateAfter_Inr Delete_eq_expireKey
        expireKey_result Subscribe_fields advance_def expire_Some callback_Some
        stopTimer_fields)

lemma run_timer:
  "t < length (rtimers w) \<Longrightarrow> run es w = Some w' \<Longrightarrow>
     t < length (rtimers w')
       \<and> cbKey (rtimers w' ! t) = cbKey (rtimers w ! t)
       \<and> deadline (rtimers w' ! t) = deadline (rtimers w ! t)
       \<and> (waiting (rtimers w' ! t) \<longrightarrow> waiting (rtimers w ! t))"
proof (induction es arbitrary: w)
  case Nil
  then show ?case by simp
next
  case (Cons e es)
  from Cons.prems(2) obtain w1 where s: "step e w = Some w1" "run es w1 = Some w'"
    by (auto split: option.splits)
  from step_timer [OF Cons.prems(1) s(1)] Cons.IH [of w1] s(2) show ?case by simp
qed

lemma run_now: "run es w = Some w' \<Longrightarrow> now w \<le> now w'"
proof (induction es arbitrary: w)
  case Nil
  then show ?case by simp
next
  case (Cons e es)
  from Cons.prems obtain w1 where s: "step e w = Some w1" "run es w1 = Some w'"
    by (auto split: option.splits)
  from step_now [OF s(1)] Cons.IH [OF s(2)] show ?case by simp
qed

text \<open>A timer that does not wait is expired by no execution.\<close>

lemma stopped_never_expires:
  "t < length (rtimers w) \<Longrightarrow> \<not> waiting (rtimers w ! t) \<Longrightarrow> run es w = Some w' \<Longrightarrow>
     EExpire t \<notin> set es"
proof (induction es arbitrary: w)
  case Nil
  then show ?case by simp
next
  case (Cons e es)
  from Cons.prems(3) obtain w1 where s: "step e w = Some w1" "run es w1 = Some w'"
    by (auto split: option.splits)
  from s(1) Cons.prems(2) have "e \<noteq> EExpire t" by (auto simp: expire_Some)
  moreover from step_timer [OF Cons.prems(1) s(1)] Cons.prems(2)
  have "t < length (rtimers w1)" "\<not> waiting (rtimers w1 ! t)" by simp_all
  then have "EExpire t \<notin> set es" using s(2) by (rule Cons.IH)
  ultimately show ?case by simp
qed

text \<open>
  The callback of a timer that does not wait and has no callback pending is run by no
  execution: the timer was stopped before it expired, or its callback has already run.
\<close>

lemma stopped_never_runs:
  "t < length (rtimers w) \<Longrightarrow> \<not> waiting (rtimers w ! t) \<Longrightarrow> t \<notin> set (pending w) \<Longrightarrow>
   run es w = Some w' \<Longrightarrow> ECallback t \<notin> set es"
proof (induction es arbitrary: w)
  case Nil
  then show ?case by simp
next
  case (Cons e es)
  from Cons.prems(4) obtain w1 where s: "step e w = Some w1" "run es w1 = Some w'"
    by (auto split: option.splits)
  from s(1) Cons.prems(3) have c: "e \<noteq> ECallback t" by (auto simp: callback_Some)
  from s(1) Cons.prems(2) have x: "e \<noteq> EExpire t" by (auto simp: expire_Some)
  from step_timer [OF Cons.prems(1) s(1)] Cons.prems(2)
  have "t < length (rtimers w1)" "\<not> waiting (rtimers w1 ! t)" by simp_all
  moreover have "t \<notin> set (pending w1)"
    using step_pending [OF s(1), of t] Cons.prems(3) x by blast
  ultimately have "ECallback t \<notin> set es" using s(2) by (rule Cons.IH)
  with c show ?case by simp
qed

text \<open>A timer expired by an execution was due: the clock has passed its deadline.\<close>

lemma expired_was_due:
  "t < length (rtimers w) \<Longrightarrow> run es w = Some w' \<Longrightarrow> EExpire t \<in> set es \<Longrightarrow>
     deadline (rtimers w ! t) \<le> now w'"
proof (induction es arbitrary: w)
  case Nil
  then show ?case by simp
next
  case (Cons e es)
  from Cons.prems(2) obtain w1 where s: "step e w = Some w1" "run es w1 = Some w'"
    by (auto split: option.splits)
  show ?case
  proof (cases "e = EExpire t")
    case True
    with s(1) have "deadline (rtimers w ! t) \<le> now w" by (simp add: expire_Some)
    also have "now w \<le> now w1" using s(1) by (rule step_now)
    also have "now w1 \<le> now w'" using s(2) by (rule run_now)
    finally show ?thesis .
  next
    case False
    with Cons.prems(3) have "EExpire t \<in> set es" by simp
    moreover from step_timer [OF Cons.prems(1) s(1)]
    have "t < length (rtimers w1)" "deadline (rtimers w1 ! t) = deadline (rtimers w ! t)"
      by simp_all
    ultimately show ?thesis using Cons.IH [of w1] s(2) by simp
  qed
qed

text \<open>Before its deadline a timer has not expired: no callback of it is pending.\<close>

lemma not_due_not_pending:
  "t < length (rtimers w) \<Longrightarrow> t \<notin> set (pending w) \<Longrightarrow> run es w = Some w' \<Longrightarrow>
   now w' < deadline (rtimers w ! t) \<Longrightarrow> t \<notin> set (pending w')"
proof (induction es arbitrary: w)
  case Nil
  then show ?case by simp
next
  case (Cons e es)
  from Cons.prems(3) obtain w1 where s: "step e w = Some w1" "run es w1 = Some w'"
    by (auto split: option.splits)
  have "e \<noteq> EExpire t"
  proof
    assume "e = EExpire t"
    with s(1) have "deadline (rtimers w ! t) \<le> now w" by (simp add: expire_Some)
    also have "now w \<le> now w'" using Cons.prems(3) by (rule run_now)
    finally show False using Cons.prems(4) by simp
  qed
  with step_pending [OF s(1), of t] Cons.prems(2) have "t \<notin> set (pending w1)" by blast
  moreover from step_timer [OF Cons.prems(1) s(1)]
  have "t < length (rtimers w1)" "deadline (rtimers w1 ! t) = deadline (rtimers w ! t)"
    by simp_all
  ultimately show ?case using Cons.IH [of w1] s(2) Cons.prems(4) by simp
qed

text \<open>
  In every state of a store a pending callback belongs to a timer that exists and has
  expired.
\<close>

lemma pendingExist_step:
  assumes "pendingExist w" and "step e w = Some w'"
  shows "pendingExist w'"
  unfolding pendingExist_def
proof
  fix t assume t: "t \<in> set (pending w')"
  from step_pending [OF assms(2) t]
  show "t < length (rtimers w') \<and> \<not> waiting (rtimers w' ! t)"
  proof
    assume "t \<in> set (pending w)"
    with assms(1) have "t < length (rtimers w)" "\<not> waiting (rtimers w ! t)"
      by (simp_all add: pendingExist_def)
    with step_timer [OF this(1) assms(2)] show ?thesis by simp
  next
    assume e: "e = EExpire t"
    with assms(2) have l: "t < length (rtimers w)"
      and w': "w' = (stopTimer t w)\<lparr>pending := pending w @ [t]\<rparr>"
      by (simp_all add: expire_Some)
    then show ?thesis by (simp add: stopTimer_fields stopTimer_waiting)
  qed
qed

lemma reachable_pendingExist: "reachable w \<Longrightarrow> pendingExist w"
proof (induction rule: reachable.induct)
  case boot
  show ?case by (simp add: pendingExist_def boot_def)
next
  case (step w e w')
  then show ?case using pendingExist_step by blast
qed

text \<open>A callback that is not pending runs only after the expiry of its timer.\<close>

lemma callback_needs_expire:
  "t \<notin> set (pending w) \<Longrightarrow> run es w = Some w' \<Longrightarrow> ECallback t \<in> set es \<Longrightarrow>
     EExpire t \<in> set es"
proof (induction es arbitrary: w)
  case Nil
  then show ?case by simp
next
  case (Cons e es)
  from Cons.prems(2) obtain w1 where s: "step e w = Some w1" "run es w1 = Some w'"
    by (auto split: option.splits)
  show ?case
  proof (cases "e = EExpire t")
    case True
    then show ?thesis by simp
  next
    case False
    from s(1) Cons.prems(1) have "e \<noteq> ECallback t" by (auto simp: callback_Some)
    with Cons.prems(3) have "ECallback t \<in> set es" by simp
    moreover from step_pending [OF s(1), of t] Cons.prems(1) False
    have "t \<notin> set (pending w1)" by blast
    ultimately have "EExpire t \<in> set es" using Cons.IH [of w1] s(2) by simp
    then show ?thesis by simp
  qed
qed

text \<open>A timer object that a step creates is the timer of a timed set, for its key.\<close>

lemma step_new_timer:
  assumes "step e w = Some w'" and "t < length (rtimers w')" and "length (rtimers w) \<le> t"
  shows "\<exists>k v d. e = ESetWithTimeout k v d \<and> cbKey (rtimers w' ! t) = k"
proof (cases e)
  case (ESet k v)
  with assms show ?thesis by (auto simp: Set_fields)
next
  case (ESetWithTimeout k v d)
  with assms(1) have r: "rtimers w' = rtimers (stopRecorded k w) @
      [\<lparr>deadline = now w + (if d \<le> 0 then 0 else d), cbKey = k, waiting = True\<rparr>]"
    by (auto simp: SetWithTimeout_result stateAfter_Inr)
  with assms(2,3) have "t = length (rtimers (stopRecorded k w))"
    by (simp add: stopRecorded_fields)
  with r ESetWithTimeout show ?thesis by simp
next
  case (EDelete k)
  with assms show ?thesis
    by (auto simp: Delete_eq_expireKey expireKey_result stopRecorded_fields)
next
  case (ESubscribe k ch c)
  with assms show ?thesis by (auto simp: Subscribe_fields)
next
  case (EAdvance d)
  with assms show ?thesis by (auto simp: advance_fields)
next
  case (EExpire t')
  with assms show ?thesis by (auto simp: expire_Some stopTimer_fields)
next
  case (ECallback t')
  with assms show ?thesis
    by (auto simp: callback_Some expireKey_result stopRecorded_fields)
qed

section \<open>Delete\<close>

lemma reachable_Subscribe: "reachable w \<Longrightarrow> reachable (Subscribe key ch c w)"
  using reachable.step [of w "ESubscribe key ch c"] by simp

lemma reachable_Set: "reachable w \<Longrightarrow> reachable (stateAfter (Set key value w))"
  using reachable.step [of w "ESet key value"] by simp

lemma reachable_SetWithTimeout:
  "reachable w \<Longrightarrow> reachable (stateAfter (SetWithTimeout key value d w))"
  using reachable.step [of w "ESetWithTimeout key value d"] by simp

lemma reachable_advance: "reachable w \<Longrightarrow> reachable (advance d w)"
  using reachable.step [of w "EAdvance d"] by simp



section \<open>Events on other keys\<close>

lemma subscribersOf_expireKey: "subscribersOf (expireKey k w) key = subscribersOf w key"
  by (simp add: subscribersOf_def expireKey_result)

lemma subscribersOf_stopTimer: "subscribersOf (stopTimer t w) key = subscribersOf w key"
  by (simp add: subscribersOf_def stopTimer_fields)

lemma subscribersOf_Set: "subscribersOf (stateAfter (Set k v w)) key = subscribersOf w key"
  by (simp add: subscribersOf_def Set_fields)

lemma subscribersOf_SetWithTimeout:
  "subscribersOf (stateAfter (SetWithTimeout k v d w)) key = subscribersOf w key"
  by (simp add: subscribersOf_def SetWithTimeout_result stateAfter_def)

lemma subscribersOf_Subscribe:
  "k \<noteq> key \<Longrightarrow> subscribersOf (Subscribe k ch c w) key = subscribersOf w key"
  by (simp add: subscribersOf_def Subscribe_def)

lemma subscribersOf_advance: "subscribersOf (advance d w) key = subscribersOf w key"
  by (simp add: subscribersOf_def advance_fields)

lemma armed_pending: "armed key t dl subs (w\<lparr>pending := p\<rparr>) = armed key t dl subs w"
  by (simp add: armed_def pending_update_facts subscribersOf_def)

lemma armed_stopTimer:
  assumes "armed key t dl subs w" and "t' \<noteq> t"
  shows "armed key t dl subs (stopTimer t' w)"
  using assms
  by (simp add: armed_def stopTimer_fields stopTimer_cbKey stopTimer_deadline stopTimer_waiting
      subscribersOf_stopTimer timersRecorded_stopTimer)

lemma armed_expireKey:
  assumes "armed key t dl subs w" and "k \<noteq> key"
  shows "armed key t dl subs (expireKey k w)"
proof -
  from assms have "timers (ssm w) k \<noteq> Some t"
    by (auto simp: armed_def timersRecorded_def)
  with assms show ?thesis
    by (simp add: armed_def timersRecorded_expireKey subscribersOf_expireKey)
       (simp add: expireKey_result stopRecorded_fields stopRecorded_cbKey
          stopRecorded_deadline stopRecorded_waiting)
qed

lemma armed_SetWithTimeout:
  assumes "armed key t dl subs w" and "k \<noteq> key"
  shows "armed key t dl subs (stateAfter (SetWithTimeout k v d w))"
proof -
  from assms have "timers (ssm w) k \<noteq> Some t"
    by (auto simp: armed_def timersRecorded_def)
  with assms show ?thesis
    by (simp add: armed_def timersRecorded_SetWithTimeout subscribersOf_SetWithTimeout)
       (simp add: SetWithTimeout_result stateAfter_def stopRecorded_fields stopRecorded_cbKey
          stopRecorded_deadline stopRecorded_waiting nth_append)
qed

lemma armed_step:
  assumes "armed key t dl subs w" and "eventKey w e \<noteq> Some key" and "step e w = Some w'"
  shows "armed key t dl subs w'"
proof -
  from assms(1) have "timersRecorded w" by (simp add: armed_def)
  then have tr: "timersRecorded w'" using assms(3) by (rule timersRecorded_step)
  show ?thesis
  proof (cases e)
    case (ESet k v)
    with assms(3) have w': "w' = stateAfter (Set k v w)" by simp
    show ?thesis
      using assms(1) tr by (simp add: armed_def w' Set_fields subscribersOf_Set)
  next
    case (ESetWithTimeout k v d)
    with assms(2,3) have "w' = stateAfter (SetWithTimeout k v d w)" "k \<noteq> key" by simp_all
    with assms(1) show ?thesis by (simp add: armed_SetWithTimeout)
  next
    case (EDelete k)
    with assms(2,3) have "w' = expireKey k w" "k \<noteq> key"
      by (simp_all add: Delete_eq_expireKey)
    with assms(1) show ?thesis by (simp add: armed_expireKey)
  next
    case (ESubscribe k ch c)
    with assms(2,3) have w': "w' = Subscribe k ch c w" and k: "k \<noteq> key" by simp_all
    show ?thesis
      using assms(1) tr k by (simp add: armed_def w' Subscribe_fields subscribersOf_Subscribe)
  next
    case (EAdvance d)
    with assms(3) have w': "w' = advance d w" by simp
    show ?thesis
      using assms(1) tr by (simp add: armed_def w' advance_fields subscribersOf_advance)
  next
    case (EExpire t')
    with assms(3) have f: "t' < length (rtimers w)"
        "w' = (stopTimer t' w)\<lparr>pending := pending w @ [t']\<rparr>"
      by (simp_all add: expire_Some)
    with assms(2) EExpire have k: "cbKey (rtimers w ! t') \<noteq> key" by simp
    with assms(1) have "t' \<noteq> t" by (auto simp: armed_def)
    with assms(1) have "armed key t dl subs (stopTimer t' w)" by (simp add: armed_stopTimer)
    with f show ?thesis by (simp add: armed_pending)
  next
    case (ECallback t')
    with assms(3) have f: "t' < length (rtimers w)"
        "w' = expireKey (cbKey (rtimers w ! t')) (w\<lparr>pending := removeAll t' (pending w)\<rparr>)"
      by (simp_all add: callback_Some)
    with assms(2) ECallback have k: "cbKey (rtimers w ! t') \<noteq> key" by simp
    from assms(1) have "armed key t dl subs (w\<lparr>pending := removeAll t' (pending w)\<rparr>)"
      by (simp add: armed_pending)
    with k f show ?thesis by (simp add: armed_expireKey)
  qed
qed

lemma armed_runOff:
  "armed key t dl subs w \<Longrightarrow> runOff key es w = Some w' \<Longrightarrow> armed key t dl subs w'"
proof (induction es arbitrary: w)
  case Nil
  then show ?case by simp
next
  case (Cons e es)
  from Cons.prems(2) obtain w1 where
    "eventKey w e \<noteq> Some key" "step e w = Some w1" "runOff key es w1 = Some w'"
    by (auto split: if_splits option.splits)
  with Cons.IH [of w1] Cons.prems(1) show ?case by (auto dest: armed_step)
qed

lemma armed_SetWithTimeout_init:
  assumes "reachable w" and "SetWithTimeout key value d w = Inr w1"
  shows "armed key (length (rtimers w)) (now w + (if d \<le> 0 then 0 else d))
           (subscribersOf w key) w1"
proof -
  from assms(1) have "timersRecorded w" by (simp add: reachable_invariants)
  then have "timersRecorded (stateAfter (SetWithTimeout key value d w))"
    by (rule timersRecorded_SetWithTimeout)
  with assms(2) have "timersRecorded w1" by (simp add: stateAfter_def)
  moreover have "subscribersOf w1 key = subscribersOf w key"
    using subscribersOf_SetWithTimeout [of key "value" d w key] assms(2)
    by (simp add: stateAfter_def)
  ultimately show ?thesis
    using assms(2)
    by (auto simp: armed_def SetWithTimeout_result stopRecorded_fields nth_append)
qed

lemma fire_armed:
  assumes "armed key t dl subs w" and "dl \<le> now w"
  shows "\<exists>w'. fire t w = Some w' \<and> Get key w' = (VNil, False)
           \<and> sent w' = sent w @ deliveries subs (expirationOf key)
           \<and> fire t w' = None"
proof -
  let ?w1 = "(stopTimer t w)\<lparr>pending := removeAll t (pending w)\<rparr>"
  from assms have f: "fire t w = Some (expireKey key ?w1)"
    by (simp add: fire_Some armed_def)
  have "\<not> waiting (rtimers (expireKey key ?w1) ! t)"
    using assms(1)
    by (simp add: armed_def expireKey_result stopRecorded_waiting stopTimer_fields
        stopTimer_waiting)
  then have "fire t (expireKey key ?w1) = None" by (simp add: fire_def expire_def)
  moreover have "sent (expireKey key ?w1) = sent w @ deliveries subs (expirationOf key)"
    using assms(1)
    by (simp add: armed_def expireKey_result stopTimer_fields subscribersOf_def)
  ultimately show ?thesis using f by (simp add: Get_expireKey)
qed

section \<open>Expiration notifications along an execution\<close>

lemma expirationOf_eq: "expirationOf k = expirationOf key \<longleftrightarrow> k = key"
  by (simp add: expirationOf_def)

lemma filter_deliveries:
  "filter (\<lambda>p. snd p = n) (deliveries subs v) = (if v = n then deliveries subs v else [])"
  by (induction subs) (simp_all add: deliveries_def)

lemma notifyLoop_other_value:
  "value \<noteq> n \<Longrightarrow>
     filter (\<lambda>p. snd p = n) (sent (stateAfter (notifyLoop subs value exists oldValue w)))
       = filter (\<lambda>p. snd p = n) (sent w)"
proof (induction subs arbitrary: w)
  case Nil
  then show ?case by (simp add: stateAfter_Inr)
next
  case (Cons sub subs)
  show ?case
  proof (cases "notifyCond sub exists oldValue value")
    case (Inl e)
    then show ?thesis by (simp add: stateAfter_def)
  next
    case (Inr c)
    then show ?thesis
      using Cons.IH [OF Cons.prems, of "if c then send (Channel sub) value w else w"] Cons.prems
      by (simp add: send_def)
  qed
qed

lemma expirations_Set:
  "v \<noteq> expirationOf key \<Longrightarrow> expirations key (stateAfter (Set k v w)) = expirations key w"
proof -
  assume v: "v \<noteq> expirationOf key"
  obtain oldValue exists where l: "lookup (stateMap (ssm w)) k = (oldValue, exists)"
    by (cases "lookup (stateMap (ssm w)) k")
  show ?thesis
    using notifyLoop_other_value [OF v, of "subscribersOf (putState k v w) k" exists oldValue
        "putState k v w"]
    by (simp add: expirations_def Set_def l notifySubscribers_def) (simp add: putState_def)
qed

lemma expirations_SetWithTimeout:
  "v \<noteq> expirationOf key \<Longrightarrow>
     expirations key (stateAfter (SetWithTimeout k v d w)) = expirations key w"
  by (simp add: expirations_def SetWithTimeout_result stateAfter_Inr filter_deliveries)

lemma expirations_expireKey:
  "expirations key (expireKey k w) =
     expirations key w @
       (if k = key then deliveries (subscribersOf w key) (expirationOf key) else [])"
  by (simp add: expirations_def expireKey_result filter_deliveries expirationOf_eq)

lemma expirations_stopTimer: "expirations key (stopTimer t w) = expirations key w"
  by (simp add: expirations_def stopTimer_fields)

lemma expirations_pending: "expirations key (w\<lparr>pending := p\<rparr>) = expirations key w"
  by (simp add: expirations_def)

text \<open>A quiet event that does not operate on the key sends no expiration notification of it.\<close>

lemma quiet_off_step:
  assumes "quiet key e" and "eventKey w e \<noteq> Some key" and "step e w = Some w'"
  shows "expirations key w' = expirations key w"
proof (cases e)
  case (ESet k v)
  with assms show ?thesis by (auto simp: expirations_Set)
next
  case (ESetWithTimeout k v d)
  with assms show ?thesis by (auto simp: expirations_SetWithTimeout)
next
  case (EDelete k)
  with assms show ?thesis by (auto simp: Delete_eq_expireKey expirations_expireKey)
next
  case (ESubscribe k ch c)
  with assms show ?thesis by (auto simp: Subscribe_fields expirations_def)
next
  case (EAdvance d)
  with assms show ?thesis by (auto simp: advance_fields expirations_def)
next
  case (EExpire t)
  with assms(3) have "w' = (stopTimer t w)\<lparr>pending := pending w @ [t]\<rparr>"
    by (simp add: expire_Some)
  then show ?thesis by (simp add: expirations_pending expirations_stopTimer)
next
  case (ECallback t)
  with assms(3) have f: "t < length (rtimers w)"
      "w' = expireKey (cbKey (rtimers w ! t)) (w\<lparr>pending := removeAll t (pending w)\<rparr>)"
    by (simp_all add: callback_Some)
  with assms(2) ECallback have "cbKey (rtimers w ! t) \<noteq> key" by simp
  with f(2) show ?thesis by (simp add: expirations_expireKey expirations_pending)
qed

lemma quiet_runOff_expirations:
  "runOff key es w = Some w' \<Longrightarrow> list_all (quiet key) es \<Longrightarrow>
     expirations key w' = expirations key w"
proof (induction es arbitrary: w)
  case Nil
  then show ?case by simp
next
  case (Cons e es)
  from Cons.prems(1) obtain w1 where
    s: "eventKey w e \<noteq> Some key" "step e w = Some w1" "runOff key es w1 = Some w'"
    by (auto split: if_splits option.splits)
  from Cons.prems(2) have q: "quiet key e" "list_all (quiet key) es" by simp_all
  from quiet_off_step [OF q(1) s(1,2)] Cons.IH [OF s(3) q(2)] show ?case by simp
qed

section \<open>Expiration\<close>

text \<open>
  C4. In a state of a store, after \<open>SetWithTimeout key value d\<close> and then any events
  none of which operates on the key, once the duration has elapsed the timer recorded by
  the call fires (it expires and its callback runs); after that \<open>Get key\<close> finds nothing, the firing has sent the
  expiration notification of the key once to every subscription of the key, whatever its
  conditional flag, and the timer cannot fire a second time. When moreover no event in
  between has sent a copy of that notification as a plain value, these are the only
  expiration notifications of the key sent since the call.
\<close>

theorem expiry_after_SetWithTimeout:
  assumes "reachable w"
    and "SetWithTimeout key value d w = Inr w1"
    and "runOff key es w1 = Some w2"
    and "now w + (if d \<le> 0 then 0 else d) \<le> now w2"
  shows "\<exists>t w3. timers (ssm w1) key = Some t \<and> fire t w2 = Some w3
           \<and> Get key w3 = (VNil, False)
           \<and> sent w3 = sent w2 @ deliveries (subscribersOf w key) (expirationOf key)
           \<and> fire t w3 = None
           \<and> (list_all (quiet key) es \<longrightarrow>
                expirations key w3 =
                  expirations key w1 @ deliveries (subscribersOf w key) (expirationOf key))"
proof -
  let ?t = "length (rtimers w)"
  let ?dl = "now w + (if d \<le> 0 then 0 else d)"
  from assms(1,2) have a1: "armed key ?t ?dl (subscribersOf w key) w1"
    by (rule armed_SetWithTimeout_init)
  then have a2: "armed key ?t ?dl (subscribersOf w key) w2"
    using assms(3) by (rule armed_runOff)
  from a1 have t: "timers (ssm w1) key = Some ?t"
    and s1: "subscribersOf w1 key = subscribersOf w key"
    by (simp_all add: armed_def)
  from fire_armed [OF a2 assms(4)] obtain w3 where
    f: "fire ?t w2 = Some w3" "Get key w3 = (VNil, False)"
    "sent w3 = sent w2 @ deliveries (subscribersOf w key) (expirationOf key)"
    "fire ?t w3 = None"
    by blast
  have "expirations key w3 =
          expirations key w1 @ deliveries (subscribersOf w key) (expirationOf key)"
    if q: "list_all (quiet key) es"
  proof -
    from assms(3) q have "expirations key w2 = expirations key w1"
      by (rule quiet_runOff_expirations)
    with f(3) show ?thesis by (simp add: expirations_def filter_deliveries)
  qed
  with t f show ?thesis by blast
qed

theorem expiry_after_SetWithTimeout_witness:
  "\<exists>w3. fire 0 (advance 5 (stateAfter (Set ''j'' (VInt 2)
            (stateAfter (SetWithTimeout ''k'' (VInt 1) 5
               (Subscribe ''k'' 4 False (Subscribe ''k'' 3 True boot))))))) = Some w3
        \<and> Get ''k'' w3 = (VNil, False)
        \<and> sent w3 = [(3, VInt 1), (4, VInt 1), (3, expirationOf ''k''), (4, expirationOf ''k'')]"
proof -
  let ?w = "Subscribe ''k'' 4 False (Subscribe ''k'' 3 True boot)"
  let ?w1 = "stateAfter (SetWithTimeout ''k'' (VInt 1) 5 ?w)"
  let ?w2 = "advance 5 (stateAfter (Set ''j'' (VInt 2) ?w1))"
  have r: "reachable ?w" by (intro reachable_Subscribe reachable.boot)
  have s: "SetWithTimeout ''k'' (VInt 1) 5 ?w = Inr ?w1"
    by (simp add: SetWithTimeout_result stateAfter_def)
  have e: "runOff ''k'' [ESet ''j'' (VInt 2), EAdvance 5] ?w1 = Some ?w2" by simp
  have n: "now ?w + (if (5::int) \<le> 0 then 0 else 5) \<le> now ?w2"
    by (simp add: advance_def Set_fields SetWithTimeout_result stateAfter_Inr
        Subscribe_fields boot_def)
  have t: "timers (ssm ?w1) ''k'' = Some 0"
    by (simp add: SetWithTimeout_result stateAfter_def boot_def Subscribe_fields)
  have q: "sent ?w2 @ deliveries (subscribersOf ?w ''k'') (expirationOf ''k'')
             = [(3, VInt 1), (4, VInt 1), (3, expirationOf ''k''), (4, expirationOf ''k'')]"
    by (simp add: advance_def Set_def lookup_def notifySubscribers_def putState_def
        SetWithTimeout_result stateAfter_def boot_def subscribersOf_def
        Subscribe_def NewSharedStateManager_def deliveries_def)
  from expiry_after_SetWithTimeout [OF r s e n] obtain t w3 where
    "timers (ssm ?w1) ''k'' = Some t" "fire t ?w2 = Some w3" "Get ''k'' w3 = (VNil, False)"
    "sent w3 = sent ?w2 @ deliveries (subscribersOf ?w ''k'') (expirationOf ''k'')"
    by blast
  with t q have "fire 0 ?w2 = Some w3 \<and> Get ''k'' w3 = (VNil, False)
     \<and> sent w3 = [(3, VInt 1), (4, VInt 1), (3, expirationOf ''k''), (4, expirationOf ''k'')]"
    by simp
  then show ?thesis by blast
qed

section \<open>Re-arming\<close>

text \<open>
  What the second of two timed sets does to the timer of the first, when it is called
  before the first duration has elapsed: the first timer has not expired, so the call
  stops it for good. No execution afterwards expires it or runs its callback.
\<close>

lemma rearm_first_timer_never_fires:
  assumes "reachable w"
    and "SetWithTimeout key v1 d1 w = Inr w1"
    and "run es w1 = Some w1'"
    and "now w1' < now w + (if d1 \<le> 0 then 0 else d1)"
    and "SetWithTimeout key v2 d2 w1' = Inr w2"
    and "run es' w2 = Some w3"
  shows "EExpire (length (rtimers w)) \<notin> set es' \<and> ECallback (length (rtimers w)) \<notin> set es'"
proof -
  let ?t1 = "length (rtimers w)"
  have w1: "w1 = stateAfter (SetWithTimeout key v1 d1 w)"
    using assms(2) by (simp add: stateAfter_Inr)
  have r1: "reachable w1" unfolding w1 using assms(1) by (rule reachable_SetWithTimeout)
  have r1': "reachable w1'" using r1 assms(3) by (rule run_reachable)
  have a1: "armed key ?t1 (now w + (if d1 \<le> 0 then 0 else d1)) (subscribersOf w key) w1"
    using assms(1,2) by (rule armed_SetWithTimeout_init)
  then have t1: "?t1 < length (rtimers w1)" "cbKey (rtimers w1 ! ?t1) = key"
      "deadline (rtimers w1 ! ?t1) = now w + (if d1 \<le> 0 then 0 else d1)"
    by (simp_all add: armed_def)
  from assms(1) have "pendingExist w" by (rule reachable_pendingExist)
  then have "?t1 \<notin> set (pending w)" by (auto simp: pendingExist_def)
  moreover have "pending w1 = pending w" using assms(2) by (auto simp: SetWithTimeout_result)
  ultimately have p1: "?t1 \<notin> set (pending w1)" by simp
  from assms(4) t1(3) have "now w1' < deadline (rtimers w1 ! ?t1)" by simp
  with t1(1) p1 assms(3) have p1': "?t1 \<notin> set (pending w1')" by (rule not_due_not_pending)
  from run_timer [OF t1(1) assms(3)] t1(2)
  have t1': "?t1 < length (rtimers w1')" "cbKey (rtimers w1' ! ?t1) = key" by simp_all
  have wr: "waitingRecorded w1'" using r1' by (simp add: reachable_invariants)
  have "waiting (rtimers w1' ! ?t1) \<longrightarrow> timers (ssm w1') key = Some ?t1"
    using wr t1' by (auto simp: waitingRecorded_def)
  then have "\<not> waiting (rtimers (stopRecorded key w1') ! ?t1)"
    using t1'(1) by (auto simp: stopRecorded_waiting)
  then have nw: "\<not> waiting (rtimers w2 ! ?t1)"
    using t1'(1) assms(5)
    by (auto simp: SetWithTimeout_result stopRecorded_fields nth_append)
  have l2: "?t1 < length (rtimers w2)"
    using t1'(1) assms(5) by (auto simp: SetWithTimeout_result stopRecorded_fields)
  have p2: "?t1 \<notin> set (pending w2)"
    using p1' assms(5) by (auto simp: SetWithTimeout_result)
  from l2 nw assms(6) have "EExpire ?t1 \<notin> set es'" by (rule stopped_never_expires)
  moreover from l2 nw p2 assms(6) have "ECallback ?t1 \<notin> set es'"
    by (rule stopped_never_runs)
  ultimately show ?thesis by simp
qed

lemma subscribersOf_pending: "subscribersOf (w\<lparr>pending := p\<rparr>) key = subscribersOf w key"
  by (simp add: subscribersOf_def)

lemma quiet_step_subscribers:
  assumes "quiet key e" and "step e w = Some w'"
  shows "subscribersOf w' key = subscribersOf w key"
proof (cases e)
  case (ESet k v)
  with assms show ?thesis by (auto simp: subscribersOf_Set)
next
  case (ESetWithTimeout k v d)
  with assms show ?thesis by (auto simp: subscribersOf_SetWithTimeout)
next
  case (EDelete k)
  with assms show ?thesis by (auto simp: Delete_eq_expireKey subscribersOf_expireKey)
next
  case (ESubscribe k ch c)
  with assms show ?thesis by (auto simp: subscribersOf_Subscribe)
next
  case (EAdvance d)
  with assms show ?thesis by (auto simp: subscribersOf_advance)
next
  case (EExpire t)
  with assms show ?thesis
    by (auto simp: expire_Some subscribersOf_pending subscribersOf_stopTimer)
next
  case (ECallback t)
  with assms show ?thesis
    by (auto simp: callback_Some subscribersOf_pending subscribersOf_expireKey)
qed

text \<open>
  Events quiet for a key give it no new timer: the one timer of the key that waits or has
  its callback pending stays the only one.
\<close>

lemma onlyTimer_step:
  assumes "onlyTimer key t w" and "pendingExist w" and "quiet key e" and "step e w = Some w'"
  shows "onlyTimer key t w'"
proof -
  from assms(1) have t: "t < length (rtimers w)" "cbKey (rtimers w ! t) = key"
    by (simp_all add: onlyTimer_def)
  from step_timer [OF t(1) assms(4)] t(2)
  have t': "t < length (rtimers w')" "cbKey (rtimers w' ! t) = key" by simp_all
  have uniq: "u = t" if u: "u < length (rtimers w')" "cbKey (rtimers w' ! u) = key"
      "waiting (rtimers w' ! u) \<or> u \<in> set (pending w')" for u
  proof (cases "u < length (rtimers w)")
    case True
    from step_timer [OF True assms(4)] u(2)
    have k: "cbKey (rtimers w ! u) = key"
      and wt: "waiting (rtimers w' ! u) \<longrightarrow> waiting (rtimers w ! u)" by simp_all
    have "waiting (rtimers w ! u) \<or> u \<in> set (pending w)"
    proof (cases "waiting (rtimers w' ! u)")
      case True
      with wt show ?thesis by simp
    next
      case False
      with u(3) have "u \<in> set (pending w')" by simp
      from step_pending [OF assms(4) this] show ?thesis
      proof
        assume "u \<in> set (pending w)" then show ?thesis by simp
      next
        assume "e = EExpire u"
        with assms(4) show ?thesis by (simp add: expire_Some)
      qed
    qed
    with assms(1) True k show ?thesis by (auto simp: onlyTimer_def)
  next
    case False
    then have "length (rtimers w) \<le> u" by simp
    from step_new_timer [OF assms(4) u(1) this] u(2) obtain v d where
      "e = ESetWithTimeout key v d" by blast
    with assms(3) show ?thesis by simp
  qed
  show ?thesis unfolding onlyTimer_def using t' uniq by blast
qed

text \<open>
  Along events quiet for a key whose only live timer is \<open>t\<close>, the expiration
  notifications of the key that are sent are those of the one run of the callback of
  \<open>t\<close>, if it runs.
\<close>

lemma quiet_run_onlyTimer:
  "onlyTimer key t w \<Longrightarrow> pendingExist w \<Longrightarrow> run es w = Some w' \<Longrightarrow>
   list_all (quiet key) es \<Longrightarrow>
     expirations key w' =
       expirations key w @
         (if ECallback t \<in> set es
          then deliveries (subscribersOf w key) (expirationOf key) else [])"
proof (induction es arbitrary: w)
  case Nil
  then show ?case by simp
next
  case (Cons e es)
  from Cons.prems(3) obtain w1 where s: "step e w = Some w1" "run es w1 = Some w'"
    by (auto split: option.splits)
  from Cons.prems(4) have q: "quiet key e" "list_all (quiet key) es" by simp_all
  have o1: "onlyTimer key t w1" using Cons.prems(1,2) q(1) s(1) by (rule onlyTimer_step)
  have p1: "pendingExist w1" using Cons.prems(2) s(1) by (rule pendingExist_step)
  have sub: "subscribersOf w1 key = subscribersOf w key"
    using q(1) s(1) by (rule quiet_step_subscribers)
  note IH = Cons.IH [OF o1 p1 s(2) q(2)]
  from Cons.prems(1) have t: "t < length (rtimers w)" "cbKey (rtimers w ! t) = key"
    by (simp_all add: onlyTimer_def)
  show ?case
  proof (cases "e = ECallback t")
    case True
    with s(1) have tp: "t \<in> set (pending w)"
      and w1: "w1 = expireKey key (w\<lparr>pending := removeAll t (pending w)\<rparr>)"
      using t(2) by (simp_all add: callback_Some)
    from w1 have x: "expirations key w1 =
        expirations key w @ deliveries (subscribersOf w key) (expirationOf key)"
      by (simp add: expirations_expireKey expirations_pending subscribersOf_pending)
    from tp Cons.prems(2) have "\<not> waiting (rtimers w ! t)" by (simp add: pendingExist_def)
    with step_timer [OF t(1) s(1)]
    have "t < length (rtimers w1)" "\<not> waiting (rtimers w1 ! t)" by simp_all
    moreover have "t \<notin> set (pending w1)" by (simp add: w1 expireKey_result)
    ultimately have "ECallback t \<notin> set es" using s(2) by (rule stopped_never_runs)
    with IH x True show ?thesis by simp
  next
    case False
    have "expirations key w1 = expirations key w"
    proof (cases "eventKey w e = Some key")
      case off: False
      with q(1) show ?thesis using s(1) by (rule quiet_off_step)
    next
      case on: True
      show ?thesis
      proof (cases e)
        case (ESet k v)
        with on q(1) show ?thesis by simp
      next
        case (ESetWithTimeout k v d)
        with on q(1) show ?thesis by simp
      next
        case (EDelete k)
        with on q(1) show ?thesis by simp
      next
        case (ESubscribe k ch c)
        with on q(1) show ?thesis by simp
      next
        case (EAdvance d)
        with on show ?thesis by simp
      next
        case (EExpire u)
        with s(1) have "w1 = (stopTimer u w)\<lparr>pending := pending w @ [u]\<rparr>"
          by (simp add: expire_Some)
        then show ?thesis by (simp add: expirations_pending expirations_stopTimer)
      next
        case (ECallback u)
        with s(1) have u: "u \<in> set (pending w)" "u < length (rtimers w)"
          by (simp_all add: callback_Some)
        with on ECallback have "cbKey (rtimers w ! u) = key" by simp
        with u Cons.prems(1) have "u = t" by (auto simp: onlyTimer_def)
        with ECallback False show ?thesis by simp
      qed
    qed
    with IH sub False show ?thesis by simp
  qed
qed

text \<open>
  When no callback of the key is pending at a timed set, the timer of that call is
  afterwards the only live timer of the key: along events quiet for the key, the
  expiration notifications of the key are none, or one for every subscription, sent by
  the callback of that timer after the duration of the call has elapsed.
\<close>

lemma rearm_one_expiration:
  assumes "reachable w"
    and "\<forall>t \<in> set (pending w). cbKey (rtimers w ! t) \<noteq> key"
    and "SetWithTimeout key value d w = Inr w2"
    and "run es w2 = Some w3" and "list_all (quiet key) es"
  shows "expirations key w3 =
           expirations key w2 @
             (if ECallback (length (rtimers w)) \<in> set es
              then deliveries (subscribersOf w2 key) (expirationOf key) else [])
         \<and> (ECallback (length (rtimers w)) \<in> set es
              \<longrightarrow> now w + (if d \<le> 0 then 0 else d) \<le> now w3)"
proof -
  let ?t = "length (rtimers w)"
  let ?dl = "now w + (if d \<le> 0 then 0 else d)"
  have w2: "w2 = stateAfter (SetWithTimeout key value d w)"
    using assms(3) by (simp add: stateAfter_Inr)
  have r2: "reachable w2" unfolding w2 using assms(1) by (rule reachable_SetWithTimeout)
  then have p2: "pendingExist w2" by (rule reachable_pendingExist)
  from r2 have wr2: "waitingRecorded w2" by (simp add: reachable_invariants)
  from assms(1) have pw: "pendingExist w" by (rule reachable_pendingExist)
  have a: "armed key ?t ?dl (subscribersOf w key) w2"
    using assms(1,3) by (rule armed_SetWithTimeout_init)
  then have t: "?t < length (rtimers w2)" "cbKey (rtimers w2 ! ?t) = key"
      "timers (ssm w2) key = Some ?t" "deadline (rtimers w2 ! ?t) = ?dl"
    by (simp_all add: armed_def)
  have pe: "pending w2 = pending w" using assms(3) by (auto simp: SetWithTimeout_result)
  have uniq: "u = ?t" if u: "u < length (rtimers w2)" "cbKey (rtimers w2 ! u) = key"
      "waiting (rtimers w2 ! u) \<or> u \<in> set (pending w2)" for u
  proof (cases "waiting (rtimers w2 ! u)")
    case True
    with wr2 u(1,2) t(3) show ?thesis by (auto simp: waitingRecorded_def)
  next
    case False
    with u(3) pe have up: "u \<in> set (pending w)" by simp
    with pw have ul: "u < length (rtimers w)" by (simp add: pendingExist_def)
    then have "cbKey (rtimers w2 ! u) = cbKey (rtimers w ! u)"
      using assms(3) by (auto simp: SetWithTimeout_result nth_append stopRecorded_fields
          stopRecorded_cbKey)
    with u(2) up assms(2) show ?thesis by auto
  qed
  have o: "onlyTimer key ?t w2" unfolding onlyTimer_def using t(1,2) uniq by blast
  from quiet_run_onlyTimer [OF o p2 assms(4,5)]
  have 1: "expirations key w3 =
           expirations key w2 @
             (if ECallback ?t \<in> set es
              then deliveries (subscribersOf w2 key) (expirationOf key) else [])" .
  have 2: "?dl \<le> now w3" if c: "ECallback ?t \<in> set es"
  proof -
    from pw have "?t \<notin> set (pending w)" by (auto simp: pendingExist_def)
    with pe have "?t \<notin> set (pending w2)" by simp
    then have "EExpire ?t \<in> set es" using assms(4) c by (rule callback_needs_expire)
    with expired_was_due [OF t(1) assms(4)] t(4) show ?thesis by simp
  qed
  from 1 2 show ?thesis by blast
qed

text \<open>
  C5. What the pair of calls does not stop is a callback that is already pending. A
  store with one subscriber (channel 3) of the key \<open>k\<close>. A timed set of \<open>k\<close> for 1 ns;
  its timer (timer 0) expires and its callback is pending, waiting for the lock. Then
  the pair of calls: a timed set of \<open>k\<close> for 10 ns at time 1 (timer 1, due at 11) and, at
  time 5, before that duration has elapsed and with timer 1 still waiting, a timed set
  of \<open>k\<close> for 5 ns (timer 2, due at 10).

  When the pending callback of timer 0 runs now, at time 5, it removes the value of the
  second call, stops timer 2 and sends an expiration notification of \<open>k\<close>, 5 ns before
  the duration of the second call has elapsed. When instead timer 2 expires first, at
  time 10, and then both pending callbacks run, two expiration notifications of \<open>k\<close>
  are sent.
\<close>

theorem rearm_stale_callback:
  "map_option (\<lambda>w. (now w, deadline (rtimers w ! 1), waiting (rtimers w ! 1)))
     (run [ESubscribe ''k'' 3 False,
           ESetWithTimeout ''k'' (VInt 0) 1, EAdvance 1, EExpire 0,
           ESetWithTimeout ''k'' (VInt 1) 10, EAdvance 4] boot)
     = Some (5, 11, True)
   \<and> map_option (\<lambda>w. (expirations ''k'' w, Get ''k'' w, now w, waiting (rtimers w ! 2)))
     (run [ESubscribe ''k'' 3 False,
           ESetWithTimeout ''k'' (VInt 0) 1, EAdvance 1, EExpire 0,
           ESetWithTimeout ''k'' (VInt 1) 10, EAdvance 4,
           ESetWithTimeout ''k'' (VInt 2) 5,
           ECallback 0] boot)
     = Some ([(3, expirationOf ''k'')], (VNil, False), 5, False)
   \<and> map_option (expirations ''k'')
     (run [ESubscribe ''k'' 3 False,
           ESetWithTimeout ''k'' (VInt 0) 1, EAdvance 1, EExpire 0,
           ESetWithTimeout ''k'' (VInt 1) 10, EAdvance 4,
           ESetWithTimeout ''k'' (VInt 2) 5, EAdvance 5, EExpire 2,
           ECallback 0, ECallback 2] boot)
     = Some [(3, expirationOf ''k''), (3, expirationOf ''k'')]"
  by code_simp

text \<open>
  The same pending callback outlives \<open>Delete\<close>: after the timer of \<open>k\<close> has expired,
  \<open>Delete\<close> sends the expiration notification and a later \<open>Set\<close> stores a new value;
  the callback then runs, removes the new value and sends the notification again.
\<close>

lemma stale_callback_after_Delete:
  "map_option (\<lambda>w. (expirations ''k'' w, Get ''k'' w))
     (run [ESubscribe ''k'' 3 False,
           ESetWithTimeout ''k'' (VInt 0) 1, EAdvance 1, EExpire 0,
           EDelete ''k'', ESet ''k'' (VInt 9),
           ECallback 0] boot)
     = Some ([(3, expirationOf ''k''), (3, expirationOf ''k'')], (VNil, False))"
  by code_simp

section \<open>The delivery rule of Set\<close>

lemma Set_returns_if:
  assumes "stateMap (ssm w) key = None
           \<or> (\<exists>oldValue b. stateMap (ssm w) key = Some oldValue \<and> iface_eq oldValue value = Inr b)"
  shows "\<exists>w'. Set key value w = Inr w'"
proof -
  from assms have "\<not> (\<exists>e w'. Set key value w = Inl (e, w'))"
    by (auto simp: Set_panics_iff)
  then show ?thesis by (cases "Set key value w") auto
qed

lemma Set_first_of_two:
  assumes "stateMap (ssm w) key = None
           \<or> (\<exists>oldValue. stateMap (ssm w) key = Some oldValue \<and> iface_eq oldValue value = Inr False)"
    and "Set key value w = Inr w1"
  shows "sent w1 = sent w @ deliveries (subscribersOf w key) value"
proof -
  have "specDelivers (stateMap (ssm w) key \<noteq> None) (fst (lookup (stateMap (ssm w)) key)) value sub"
    for sub
    using assms(1) by (auto simp: specDelivers_def lookup_def)
  with Set_returns [OF assms(2)] show ?thesis by simp
qed

lemma Set_second_of_two:
  assumes "iface_eq value value = Inr True"
    and "Set key value w = Inr w1" and "Set key value w1 = Inr w2"
  shows "sent w2 = sent w1 @
           deliveries (filter (\<lambda>sub. \<not> ConditionalNotifications sub) (subscribersOf w key)) value"
proof -
  from assms(2) have w1: "w1 = stateAfter (Set key value w)" by (simp add: stateAfter_Inr)
  have m: "stateMap (ssm w1) key = Some value" by (simp add: w1 Set_fields)
  have s: "subscribersOf w1 key = subscribersOf w key" by (simp add: w1 subscribersOf_Set)
  have "specDelivers (stateMap (ssm w1) key \<noteq> None) (fst (lookup (stateMap (ssm w1)) key)) value
          = (\<lambda>sub. \<not> ConditionalNotifications sub)"
    using assms(1) by (simp add: m specDelivers_def lookup_def fun_eq_iff)
  with Set_returns [OF assms(3)] s show ?thesis by simp
qed

text \<open>
  C1, as amended. Whenever a call of \<open>Set\<close> returns, it has sent the new value once, in
  the order of registration, to exactly those subscriptions of the key that the rule
  selects: the conditional flag is false, or the key did not exist, or the previous
  value is not equal to the new one (\<^verbatim>\<open>oldValue != value\<close> is true). So, for a key that
  is absent or holds a value not equal to the new one, and a new value that is equal to
  itself (\<^verbatim>\<open>value == value\<close> is true), of two calls that set the key to that value and
  return, the first sends the value to every subscription and the second to the
  unconditional ones only.
\<close>

theorem Set_delivery_rule:
  "(\<forall>w'. Set key value w = Inr w' \<longrightarrow>
         sent w' = sent w @
           deliveries (filter (specDelivers (stateMap (ssm w) key \<noteq> None)
                                 (fst (lookup (stateMap (ssm w)) key)) value)
                         (subscribersOf w key)) value)
   \<and> (\<forall>w1 w2.
         (stateMap (ssm w) key = None
          \<or> (\<exists>oldValue. stateMap (ssm w) key = Some oldValue
                \<and> iface_eq oldValue value = Inr False))
         \<and> iface_eq value value = Inr True
         \<and> Set key value w = Inr w1 \<and> Set key value w1 = Inr w2 \<longrightarrow>
         sent w1 = sent w @ deliveries (subscribersOf w key) value
         \<and> sent w2 = sent w1 @
             deliveries (filter (\<lambda>sub. \<not> ConditionalNotifications sub) (subscribersOf w key))
               value)"
  using Set_returns Set_first_of_two Set_second_of_two by blast

theorem Set_delivery_rule_witness:
  "\<exists>w1 w2. Set ''k'' (VString ''a'') (Subscribe ''k'' 4 False (Subscribe ''k'' 3 True boot)) = Inr w1
     \<and> Set ''k'' (VString ''a'') w1 = Inr w2
     \<and> received 3 w2 = [VString ''a'']
     \<and> received 4 w2 = [VString ''a'', VString ''a'']"
proof -
  let ?w = "Subscribe ''k'' 4 False (Subscribe ''k'' 3 True boot)"
  let ?v = "VString ''a''"
  have a: "stateMap (ssm ?w) ''k'' = None"
    by (simp add: Subscribe_fields boot_def NewSharedStateManager_def)
  have c: "iface_eq ?v ?v = Inr True" by (simp add: iface_eq.simps)
  from a obtain w1 where w1: "Set ''k'' ?v ?w = Inr w1"
    using Set_returns_if [of ?w "''k''" ?v] by blast
  then have "w1 = stateAfter (Set ''k'' ?v ?w)" by (simp add: stateAfter_Inr)
  then have "stateMap (ssm w1) ''k'' = Some ?v" by (simp add: Set_fields)
  with c obtain w2 where w2: "Set ''k'' ?v w1 = Inr w2"
    using Set_returns_if [of w1 "''k''" ?v] by blast
  from Set_delivery_rule [of "''k''" ?v ?w] a c w1 w2 have
    "sent w1 = sent ?w @ deliveries (subscribersOf ?w ''k'') ?v"
    "sent w2 = sent w1 @
       deliveries (filter (\<lambda>sub. \<not> ConditionalNotifications sub) (subscribersOf ?w ''k'')) ?v"
    by blast+
  then have "sent w2 = [(3, ?v), (4, ?v), (4, ?v)]"
    by (simp add: subscribersOf_def Subscribe_def boot_def NewSharedStateManager_def
        deliveries_def)
  then have "received 3 w2 = [?v]" "received 4 w2 = [?v, ?v]"
    by (simp_all add: received_def)
  with w1 w2 show ?thesis by blast
qed

text \<open>
  Without the condition on the value held before, the last statement fails: where the
  key already holds the value, of two calls that set it to that value again, both
  returning, neither sends anything to a conditional subscriber (channel 3), which has
  then been sent no value and not one.
\<close>

theorem Set_twice_conditional_gets_none:
  "panicOf (Set ''k'' (VString ''a'')
      (Subscribe ''k'' 4 False (Subscribe ''k'' 3 True
         (stateAfter (Set ''k'' (VString ''a'') boot))))) = None
   \<and> panicOf (Set ''k'' (VString ''a'') (stateAfter (Set ''k'' (VString ''a'')
      (Subscribe ''k'' 4 False (Subscribe ''k'' 3 True
         (stateAfter (Set ''k'' (VString ''a'') boot))))))) = None
   \<and> received 3 (stateAfter (Set ''k'' (VString ''a'') (stateAfter (Set ''k'' (VString ''a'')
      (Subscribe ''k'' 4 False (Subscribe ''k'' 3 True
         (stateAfter (Set ''k'' (VString ''a'') boot)))))))) = []
   \<and> received 4 (stateAfter (Set ''k'' (VString ''a'') (stateAfter (Set ''k'' (VString ''a'')
      (Subscribe ''k'' 4 False (Subscribe ''k'' 3 True
         (stateAfter (Set ''k'' (VString ''a'') boot)))))))) = [VString ''a'', VString ''a'']"
  by (simp add: Set_def lookup_def notifySubscribers_def subscribersOf_def putState_def
      Subscribe_def boot_def NewSharedStateManager_def notifyCond_def send_def stateAfter_def
      panicOf_def received_def iface_neq_def iface_eq.simps)

text \<open>
  Nor does it hold for a value that is not equal to itself: a NaN set twice on a new key
  is sent twice to a conditional subscriber (channel 3), both calls returning.
\<close>

lemma Set_NaN_twice_conditional_gets_two:
  "panicOf (Set ''k'' (VFloat64 0x7FF8000000000001)
      (Subscribe ''k'' 3 True boot)) = None
   \<and> panicOf (Set ''k'' (VFloat64 0x7FF8000000000001)
      (stateAfter (Set ''k'' (VFloat64 0x7FF8000000000001)
         (Subscribe ''k'' 3 True boot)))) = None
   \<and> received 3 (stateAfter (Set ''k'' (VFloat64 0x7FF8000000000001)
      (stateAfter (Set ''k'' (VFloat64 0x7FF8000000000001)
         (Subscribe ''k'' 3 True boot)))))
     = [VFloat64 0x7FF8000000000001, VFloat64 0x7FF8000000000001]"
  by (simp add: Set_def lookup_def notifySubscribers_def subscribersOf_def putState_def
      Subscribe_def boot_def NewSharedStateManager_def notifyCond_def send_def stateAfter_def
      panicOf_def received_def iface_neq_def iface_eq.simps f64_eq_def f64_isNaN_def)

text \<open>
  And a value of a comparable type can make \<open>Set\<close> panic: an array that holds a slice,
  set twice with a conditional subscriber (channel 3).
\<close>

lemma Set_array_of_slice_twice_panics:
  "panicOf (Set ''k'' (VArray [VSlice [VInt 1]])
      (stateAfter (Set ''k'' (VArray [VSlice [VInt 1]]) (Subscribe ''k'' 3 True boot))))
     = Some (UncomparableType TSlice)"
  by (simp add: Set_def lookup_def notifySubscribers_def subscribersOf_def putState_def
      Subscribe_def boot_def NewSharedStateManager_def notifyCond_def send_def stateAfter_def
      panicOf_def iface_neq_def iface_eq.simps)

end
